theory Spec2Isabelle
  imports Main
begin

section \<open>The object graph of pcbdl/base.py\<close>

text \<open>
  Python objects live in a heap; a reference is the index of the object in the
  heap's list for its class (allocation appends, nothing is ever freed).
  \<open>ParticularPin\<close> defines neither \<open>__eq__\<close> nor \<open>__hash__\<close>, so a dictionary keyed
  by pins is keyed by their references.
\<close>

type_synonym net_ref = nat
type_synonym pin_ref = nat
type_synonym part_ref = nat
type_synonym class_ref = nat
type_synonym plugin_cls = string

datatype ConnectDirection = Dir_UNKNOWN | Dir_IN | Dir_OUT

datatype PinType =
  UNKNOWN | PRIMARY | SECONDARY | POWER_INPUT | POWER_OUTPUT | GROUND | INPUT | OUTPUT

text \<open>
  The exceptions base.py raises, one constructor per raise site:
  \<^item> \<open>PinAlreadyConnected\<close>: the \<open>ValueError\<close> of the \<open>net\<close> setter (line 191);
  \<^item> \<open>NetToNetConnectionUnsupported\<close>: the \<open>NotImplementedError\<close> of \<open>Net.connect\<close> (line 84);
  \<^item> \<open>UnsupportedConnectTarget\<close>: the \<open>TypeError\<close> of \<open>Net.connect\<close> (line 87);
  \<^item> \<open>NoSuchPinType\<close>: the \<open>NotImplementedError\<close> of \<open>Part.get_pin_to_connect\<close> (line 270);
  \<^item> \<open>UnknownWellPin\<close>: the \<open>KeyError\<close> of \<open>ParticularPin.__init__\<close> (line 176);
  \<^item> \<open>InvalidWellPinType\<close>: the \<open>ValueError\<close> of \<open>ParticularPin.__init__\<close> (line 178);
  \<^item> \<open>NumbersMissing\<close>: the failed \<open>assert\<close> of line 169;
  \<^item> \<open>UnknownPin\<close>: the \<open>KeyError\<close> re-raised by \<open>_PinList.__getitem__\<close> (line 53);
  \<^item> \<open>IndexError\<close>: a tuple index out of range (lines 43 and 142).
\<close>

datatype error =
  PinAlreadyConnected
  | NetToNetConnectionUnsupported
  | UnsupportedConnectTarget
  | NoSuchPinType
  | UnknownWellPin
  | InvalidWellPinType
  | NumbersMissing
  | UnknownPin
  | IndexError

record Pin =
  names :: "string list"
  numbers :: "string list option"
  type :: PinType
  well_name :: "string option"

text \<open>
  \<open>ParticularPin\<close> inherits from \<open>Pin\<close> and copies the template's fields
  (\<open>self.__dict__.update(...)\<close>). The attribute \<open>well\<close> exists only when the
  template names a well; \<open>p_net\<close> is the attribute \<open>_net\<close>.
\<close>

record ParticularPin = Pin +
  part :: part_ref
  well :: "pin_ref option"
  p_net :: "net_ref option"

record Net =
  name :: "string option"
  connections :: "(pin_ref \<times> ConnectDirection) list"

datatype names_arg = Name string | Names "string list"

datatype pin_entry = Sugar names_arg | Long Pin

record part_class =
  PINS :: "pin_entry list"
  REFDES_PREFIX :: string
  cls_value :: string
  cls_package :: "string option"

record Part =
  cls :: class_ref
  part_value :: string
  refdes :: "string option"
  package :: "string option"
  populated :: bool
  pins :: "(string \<times> pin_ref) list"
  attrs :: "(string \<times> pin_ref) list"

datatype hook_obj = ONet net_ref | OPin Pin | OPart part_ref

text \<open>
  The four \<open>_plugins\<close> class attributes are the registries. A plugin's \<open>init\<close> is
  foreign code: what the model keeps of a call \<open>plugin.init(obj)\<close> is the entry
  \<open>(plugin, obj)\<close> appended to \<open>log\<close>.
\<close>

record state =
  classes :: "part_class list"
  parts :: "Part list"
  ppins :: "ParticularPin list"
  nets :: "Net list"
  Net_plugins :: "plugin_cls list"
  Pin_plugins :: "plugin_cls list"
  ParticularPin_plugins :: "plugin_cls list"
  Part_plugins :: "plugin_cls list"
  log :: "(plugin_cls \<times> hook_obj) list"
  str_upper :: "string \<Rightarrow> string"

text \<open>
  \<open>str_upper\<close> is the interpreter's built-in \<open>str.upper\<close>, which base.py calls at lines 44,
  50, 66 and 132. It is not code of base.py: it is a parameter of the model, a function on
  whole strings (it may change the length of a string) of which nothing is assumed, so every
  theorem below holds for Python's Unicode-aware \<open>str.upper\<close>.
\<close>

definition init_state :: "(string \<Rightarrow> string) \<Rightarrow> state" where
  "init_state up = \<lparr>classes = [], parts = [], ppins = [], nets = [],
     Net_plugins = [], Pin_plugins = [], ParticularPin_plugins = [], Part_plugins = [],
     log = [], str_upper = up\<rparr>"

subsection \<open>Ordered dictionaries\<close>

text \<open>
  \<open>d[k] = v\<close> on an \<open>OrderedDict\<close>: a key already present keeps its position and
  gets the new value, a new key goes to the end.
\<close>

fun od_set :: "('k \<times> 'v) list \<Rightarrow> 'k \<Rightarrow> 'v \<Rightarrow> ('k \<times> 'v) list" where
  "od_set [] k v = [(k, v)]"
| "od_set ((k', v') # kvs) k v =
     (if k' = k then (k, v) # kvs else (k', v') # od_set kvs k v)"

subsection \<open>Plugins\<close>

datatype core_cls = NetC | PinC | ParticularPinC | PartC

definition register :: "plugin_cls \<Rightarrow> core_cls \<Rightarrow> state \<Rightarrow> state" where
  "register plugin_cls original_cls s =
     (case original_cls of
        NetC \<Rightarrow> s\<lparr>Net_plugins := Net_plugins s @ [plugin_cls]\<rparr>
      | PinC \<Rightarrow> s\<lparr>Pin_plugins := Pin_plugins s @ [plugin_cls]\<rparr>
      | ParticularPinC \<Rightarrow> s\<lparr>ParticularPin_plugins := ParticularPin_plugins s @ [plugin_cls]\<rparr>
      | PartC \<Rightarrow> s\<lparr>Part_plugins := Part_plugins s @ [plugin_cls]\<rparr>)"

text \<open>
  \<open>plugin(plugin_cls)\<close>: for every base class of the plugin, append it to that
  class's registry (the copied methods are not part of the model).
\<close>

definition plugin :: "plugin_cls \<Rightarrow> core_cls list \<Rightarrow> state \<Rightarrow> state" where
  "plugin plugin_cls bases s = fold (register plugin_cls) bases s"

definition run_hooks :: "plugin_cls list \<Rightarrow> hook_obj \<Rightarrow> state \<Rightarrow> state" where
  "run_hooks registry obj s = s\<lparr>log := log s @ map (\<lambda>p. (p, obj)) registry\<rparr>"

subsection \<open>Net\<close>

definition Net_init :: "string option \<Rightarrow> state \<Rightarrow> net_ref \<times> state" where
  "Net_init name_arg s =
     (let self = length (nets s);
          s1 = s\<lparr>nets := nets s @ [\<lparr>name = map_option (str_upper s) name_arg, connections = []\<rparr>]\<rparr>
      in (self, run_hooks (Net_plugins s1) (ONet self) s1))"

text \<open>The \<open>net\<close> setter of \<open>ParticularPin\<close> (lines 186 to 194).\<close>

definition ParticularPin_net_set :: "pin_ref \<Rightarrow> net_ref \<Rightarrow> state \<Rightarrow> (error + unit) \<times> state" where
  "ParticularPin_net_set self new_net s =
     (if p_net (ppins s ! self) \<noteq> None then (Inl PinAlreadyConnected, s)
      else (Inr (), s\<lparr>ppins := (ppins s)[self := (ppins s ! self)\<lparr>p_net := Some new_net\<rparr>]\<rparr>))"

text \<open>
  \<open>Part.get_pin_to_connect\<close> (lines 268 to 270): the assertion holds for every
  \<open>PinType\<close>, then the method raises.
\<close>

definition Part_get_pin_to_connect :: "part_ref \<Rightarrow> PinType \<Rightarrow> state \<Rightarrow> error + pin_ref" where
  "Part_get_pin_to_connect self pin_type s = Inl NoSuchPinType"

text \<open>
  What \<open>Net.connect\<close> can be handed: a \<open>Part\<close>, a \<open>ParticularPin\<close>, a \<open>Net\<close> or an
  object of any other class; alone, or in an iterable (\<open>_maybe_single\<close>).
\<close>

datatype connectable = APart part_ref | APin pin_ref | ANet net_ref | Other

datatype targets = Single connectable | Group "connectable list"

fun maybe_single :: "targets \<Rightarrow> connectable list" where
  "maybe_single (Group os) = os"
| "maybe_single (Single o1) = [o1]"

text \<open>Lines 89 and 90: the entry is written first, then the pin's setter runs.\<close>

definition connect_pin :: "net_ref \<Rightarrow> pin_ref \<Rightarrow> ConnectDirection \<Rightarrow> state \<Rightarrow> (error + unit) \<times> state" where
  "connect_pin self pin direction s =
     (let s1 = s\<lparr>nets := (nets s)[self :=
                 (nets s ! self)\<lparr>connections := od_set (connections (nets s ! self)) pin direction\<rparr>]\<rparr>
      in ParticularPin_net_set pin self s1)"

text \<open>One iteration of the loop of \<open>Net.connect\<close> (lines 75 to 90).\<close>

fun connect_one ::
  "net_ref \<Rightarrow> connectable \<Rightarrow> ConnectDirection \<Rightarrow> PinType \<Rightarrow> state \<Rightarrow> (error + unit) \<times> state" where
  "connect_one self (APart other) direction pin_type s =
     (case Part_get_pin_to_connect other pin_type s of
        Inl e \<Rightarrow> (Inl e, s)
      | Inr pin \<Rightarrow> connect_pin self pin direction s)"
| "connect_one self (APin other) direction pin_type s = connect_pin self other direction s"
| "connect_one self (ANet other) direction pin_type s = (Inl NetToNetConnectionUnsupported, s)"
| "connect_one self Other direction pin_type s = (Inl UnsupportedConnectTarget, s)"

fun connect_loop ::
  "net_ref \<Rightarrow> connectable list \<Rightarrow> ConnectDirection \<Rightarrow> PinType \<Rightarrow> state \<Rightarrow> (error + unit) \<times> state" where
  "connect_loop self [] direction pin_type s = (Inr (), s)"
| "connect_loop self (other # rest) direction pin_type s =
     (case connect_one self other direction pin_type s of
        (Inl e, s') \<Rightarrow> (Inl e, s')
      | (Inr u, s') \<Rightarrow> connect_loop self rest direction pin_type s')"

definition Net_connect ::
  "net_ref \<Rightarrow> targets \<Rightarrow> ConnectDirection \<Rightarrow> PinType \<Rightarrow> state \<Rightarrow> (error + unit) \<times> state" where
  "Net_connect self others direction pin_type s =
     connect_loop self (maybe_single others) direction pin_type s"

definition Net_lshift :: "net_ref \<Rightarrow> targets \<Rightarrow> state \<Rightarrow> (error + net_ref) \<times> state" where
  "Net_lshift self others s =
     (case Net_connect self others Dir_IN PRIMARY s of
        (Inl e, s') \<Rightarrow> (Inl e, s')
      | (Inr u, s') \<Rightarrow> (Inr self, s'))"

definition Net_rshift :: "net_ref \<Rightarrow> targets \<Rightarrow> state \<Rightarrow> (error + net_ref) \<times> state" where
  "Net_rshift self others s =
     (case Net_connect self others Dir_OUT PRIMARY s of
        (Inl e, s') \<Rightarrow> (Inl e, s')
      | (Inr u, s') \<Rightarrow> (Inr self, s'))"

subsection \<open>ParticularPin: the net property and the two operators\<close>

text \<open>
  The \<open>net\<close> getter (lines 180 to 185). It returns the attribute \<open>_net\<close> as it is
  after the connect, so the result is an option.
\<close>

definition ParticularPin_net_get :: "pin_ref \<Rightarrow> state \<Rightarrow> (error + net_ref option) \<times> state" where
  "ParticularPin_net_get self s =
     (if p_net (ppins s ! self) = None then
        (let (fresh_net, s1) = Net_init None s in
         case Net_connect fresh_net (Single (APin self)) Dir_UNKNOWN PRIMARY s1 of
           (Inl e, s2) \<Rightarrow> (Inl e, s2)
         | (Inr u, s2) \<Rightarrow> (Inr (p_net (ppins s2 ! self)), s2))
      else (Inr (p_net (ppins s ! self)), s))"

text \<open>
  The tail of both operators: \<open>self.net\<close>, then the net's operator. A \<open>None\<close> there
  would raise \<open>TypeError\<close> (\<open>None\<close> has no shift operator).
\<close>

definition via_net ::
  "(net_ref \<Rightarrow> targets \<Rightarrow> state \<Rightarrow> (error + net_ref) \<times> state) \<Rightarrow>
   pin_ref \<Rightarrow> targets \<Rightarrow> state \<Rightarrow> (error + net_ref) \<times> state" where
  "via_net net_op self others s =
     (case ParticularPin_net_get self s of
        (Inl e, s') \<Rightarrow> (Inl e, s')
      | (Inr None, s') \<Rightarrow> (Inl UnsupportedConnectTarget, s')
      | (Inr (Some n), s') \<Rightarrow> net_op n others s')"

definition ParticularPin_lshift :: "pin_ref \<Rightarrow> targets \<Rightarrow> state \<Rightarrow> (error + net_ref) \<times> state" where
  "ParticularPin_lshift self others s =
     (if p_net (ppins s ! self) = None then
        (let (anon, s1) = Net_init None s in
         case Net_rshift anon (Single (APin self)) s1 of
           (Inl e, s2) \<Rightarrow> (Inl e, s2)
         | (Inr n, s2) \<Rightarrow> via_net Net_lshift self others s2)
      else via_net Net_lshift self others s)"

definition ParticularPin_rshift :: "pin_ref \<Rightarrow> targets \<Rightarrow> state \<Rightarrow> (error + net_ref) \<times> state" where
  "ParticularPin_rshift self others s =
     (if p_net (ppins s ! self) = None then
        (let (anon, s1) = Net_init None s in
         case Net_lshift anon (Single (APin self)) s1 of
           (Inl e, s2) \<Rightarrow> (Inl e, s2)
         | (Inr n, s2) \<Rightarrow> via_net Net_rshift self others s2)
      else via_net Net_rshift self others s)"

subsection \<open>Pin templates and the pin list of a Part\<close>

text \<open>\<open>Pin.__init__\<close> (lines 129 to 138); the hooks run on the finished template.\<close>

definition Pin_init ::
  "names_arg \<Rightarrow> string list option \<Rightarrow> PinType \<Rightarrow> string option \<Rightarrow> state \<Rightarrow> Pin \<times> state" where
  "Pin_init names_in numbers_in type_in well_in s =
     (let names1 = (case names_in of Name n \<Rightarrow> [n] | Names ns \<Rightarrow> ns);
          self = \<lparr>names = map (str_upper s) names1, numbers = numbers_in, type = type_in,
                  well_name = well_in\<rparr>
      in (self, run_hooks (Pin_plugins s) (OPin self) s))"

datatype pin_key = Index int | Alias string

text \<open>
  \<open>_PinList.__getitem__\<close> (lines 41 to 53): an integer indexes the tuple of
  values (negative integers count from the end); a string is upper-cased and
  looked up as a key, and on a miss every pin's names are scanned in order.
\<close>

definition PinList_getitem :: "(string \<times> pin_ref) list \<Rightarrow> pin_key \<Rightarrow> state \<Rightarrow> error + pin_ref" where
  "PinList_getitem self key s =
     (case key of
        Index i \<Rightarrow>
          (let n = int (length self); j = (if i < 0 then n + i else i)
           in if 0 \<le> j \<and> j < n then Inr (snd (self ! nat j)) else Inl IndexError)
      | Alias a \<Rightarrow>
          (let pin_name = str_upper s a in
           case map_of self pin_name of
             Some pin \<Rightarrow> Inr pin
           | None \<Rightarrow>
               (case find (\<lambda>pin. str_upper s pin_name \<in> set (names (ppins s ! pin))) (map snd self) of
                  Some pin \<Rightarrow> Inr pin
                | None \<Rightarrow> Inl UnknownPin)))"

text \<open>
  \<open>ParticularPin.__init__\<close> (lines 158 to 178). The new object's reference is
  the next free index; an object whose constructor raises is garbage and is
  not appended.
\<close>

definition ParticularPin_init ::
  "part_ref \<Rightarrow> Pin \<Rightarrow> string option \<Rightarrow> state \<Rightarrow> (error + pin_ref) \<times> state" where
  "ParticularPin_init part_instance part_pin_instance number s =
     (let self = length (ppins s);
          numbers1 = (case number of Some n \<Rightarrow> Some [n] | None \<Rightarrow> numbers part_pin_instance);
          obj = (\<lambda>w. \<lparr>names = names part_pin_instance, numbers = numbers1,
                       type = type part_pin_instance, well_name = well_name part_pin_instance,
                       part = part_instance, well = w, p_net = None\<rparr>)
      in if numbers1 = None then (Inl NumbersMissing, s)
         else case well_name part_pin_instance of
           None \<Rightarrow> (Inr self, s\<lparr>ppins := ppins s @ [obj None]\<rparr>)
         | Some wn \<Rightarrow>
             (case PinList_getitem (pins (parts s ! part_instance)) (Alias wn) s of
                Inl e \<Rightarrow> (Inl (if e = UnknownPin then UnknownWellPin else e), s)
              | Inr w \<Rightarrow>
                  if type (ppins s ! w) \<notin> {POWER_INPUT, POWER_OUTPUT}
                  then (Inl InvalidWellPinType, s)
                  else (Inr self, s\<lparr>ppins := ppins s @ [obj (Some w)]\<rparr>)))"

text \<open>\<open>str(i)\<close> for a natural number: its decimal digits.\<close>

definition digit_char :: "nat \<Rightarrow> char" where
  "digit_char d = char_of (48 + d)"

fun str :: "nat \<Rightarrow> string" where
  "str n = (if n < 10 then [digit_char n] else str (n div 10) @ [digit_char (n mod 10)])"

declare str.simps [simp del]

text \<open>
  The first loop of \<open>_generate_pin_instances\<close> (lines 237 to 239): every entry
  of the class's \<open>PINS\<close> that is not a \<open>Pin\<close> is replaced by \<open>Pin(entry)\<close>.
\<close>

fun normalize_PINS :: "pin_entry list \<Rightarrow> state \<Rightarrow> Pin list \<times> state" where
  "normalize_PINS [] s = ([], s)"
| "normalize_PINS (Long p # rest) s =
     (let (ps, s') = normalize_PINS rest s in (p # ps, s'))"
| "normalize_PINS (Sugar maybenames # rest) s =
     (let (p, s1) = Pin_init maybenames None UNKNOWN None s;
          (ps, s') = normalize_PINS rest s1
      in (p # ps, s'))"

text \<open>
  The second loop (lines 242 to 251), from position \<open>i\<close> on: build the pin, store
  it under its first name, then under each of its names in the instance's
  \<open>__dict__\<close>.
\<close>

fun generate_loop :: "part_ref \<Rightarrow> nat \<Rightarrow> Pin list \<Rightarrow> state \<Rightarrow> (error + unit) \<times> state" where
  "generate_loop self i [] s = (Inr (), s)"
| "generate_loop self i (part_class_pin # rest) s =
     (let pin_number = (if numbers part_class_pin = None then Some (str i) else None) in
      case ParticularPin_init self part_class_pin pin_number s of
        (Inl e, s') \<Rightarrow> (Inl e, s')
      | (Inr pin, s1) \<Rightarrow>
          (case names (ppins s1 ! pin) of
             [] \<Rightarrow> (Inl IndexError, s1)
           | nm # _ \<Rightarrow>
               (let me = parts s1 ! self;
                    me1 = me\<lparr>pins := od_set (pins me) nm pin,
                             attrs := fold (\<lambda>name d. od_set d name pin) (names (ppins s1 ! pin)) (attrs me)\<rparr>
                in generate_loop self (Suc i) rest (s1\<lparr>parts := (parts s1)[self := me1]\<rparr>))))"

definition Part_generate_pin_instances :: "part_ref \<Rightarrow> state \<Rightarrow> (error + unit) \<times> state" where
  "Part_generate_pin_instances self s =
     (let c = cls (parts s ! self);
          (ps, s1) = normalize_PINS (PINS (classes s ! c)) s;
          s2 = s1\<lparr>classes := (classes s1)[c := (classes s1 ! c)\<lparr>PINS := map Long ps\<rparr>]\<rparr>;
          s3 = s2\<lparr>parts := (parts s2)[self := (parts s2 ! self)\<lparr>pins := []\<rparr>]\<rparr>
      in generate_loop self 0 ps s3)"

text \<open>
  \<open>Part.__init__\<close> (lines 220 to 233) for an instance of class \<open>c\<close>. The object
  is allocated first, so that its pins can refer to it.
\<close>

definition Part_init ::
  "class_ref \<Rightarrow> string option \<Rightarrow> string option \<Rightarrow> string option \<Rightarrow> bool \<Rightarrow> state \<Rightarrow>
   (error + part_ref) \<times> state" where
  "Part_init c value_in refdes_in package_in populated_in s =
     (let self = length (parts s);
          obj = \<lparr>cls = c,
                 part_value = (case value_in of None \<Rightarrow> cls_value (classes s ! c) | Some v \<Rightarrow> v),
                 refdes = refdes_in,
                 package = (case package_in of None \<Rightarrow> cls_package (classes s ! c) | Some p \<Rightarrow> Some p),
                 populated = populated_in, pins = [], attrs = []\<rparr>
      in case Part_generate_pin_instances self (s\<lparr>parts := parts s @ [obj]\<rparr>) of
           (Inl e, s') \<Rightarrow> (Inl e, s')
         | (Inr u, s') \<Rightarrow> (Inr self, run_hooks (Part_plugins s') (OPart self) s'))"

text \<open>
  A class statement \<open>class X(Part): PINS = [...]\<close> evaluates its body, then binds the class
  attributes. An entry of the list is plain names, kept as they are, or a call \<open>Pin(...)\<close>,
  which runs \<open>Pin.__init__\<close> with its hooks there and then, in list order.
\<close>

datatype pin_expr = Plain names_arg | Pin_call names_arg "string list option" PinType "string option"

record class_stmt =
  body_PINS :: "pin_expr list"
  body_REFDES_PREFIX :: string
  body_value :: string
  body_package :: "string option"

fun eval_PINS :: "pin_expr list \<Rightarrow> state \<Rightarrow> pin_entry list \<times> state" where
  "eval_PINS [] s = ([], s)"
| "eval_PINS (Plain maybenames # rest) s =
     (let (es, s') = eval_PINS rest s in (Sugar maybenames # es, s'))"
| "eval_PINS (Pin_call names_in numbers_in type_in well_in # rest) s =
     (let (p, s1) = Pin_init names_in numbers_in type_in well_in s;
          (es, s') = eval_PINS rest s1
      in (Long p # es, s'))"

definition class_def :: "class_stmt \<Rightarrow> state \<Rightarrow> class_ref \<times> state" where
  "class_def k s =
     (let (es, s1) = eval_PINS (body_PINS k) s
      in (length (classes s1),
          s1\<lparr>classes := classes s1 @
                [\<lparr>PINS = es, REFDES_PREFIX = body_REFDES_PREFIX k, cls_value = body_value k,
                  cls_package = body_package k\<rparr>]\<rparr>))"

subsection \<open>Scripts\<close>

text \<open>
  The statements a script is made of. A statement that raises leaves the state
  as it is at the raise; \<open>exec\<close> keeps that state, so a run may go on after an
  error was caught.
\<close>

datatype stmt =
  SPlugin plugin_cls "core_cls list"
  | SClass class_stmt
  | SNet "string option"
  | SPart class_ref "string option" "string option" "string option" bool
  | SConnect net_ref targets ConnectDirection PinType
  | SNetLshift net_ref targets
  | SNetRshift net_ref targets
  | SPinLshift pin_ref targets
  | SPinRshift pin_ref targets
  | SGetNet pin_ref

fun exec :: "stmt \<Rightarrow> state \<Rightarrow> state" where
  "exec (SPlugin p bases) s = plugin p bases s"
| "exec (SClass c) s = snd (class_def c s)"
| "exec (SNet n) s = snd (Net_init n s)"
| "exec (SPart c v r p b) s = snd (Part_init c v r p b s)"
| "exec (SConnect n ts d t) s = snd (Net_connect n ts d t s)"
| "exec (SNetLshift n ts) s = snd (Net_lshift n ts s)"
| "exec (SNetRshift n ts) s = snd (Net_rshift n ts s)"
| "exec (SPinLshift p ts) s = snd (ParticularPin_lshift p ts s)"
| "exec (SPinRshift p ts) s = snd (ParticularPin_rshift p ts s)"
| "exec (SGetNet p) s = snd (ParticularPin_net_get p s)"

definition run :: "stmt list \<Rightarrow> state \<Rightarrow> state" where
  "run script s = fold exec script s"

section \<open>Notions used in the statements\<close>

subsection \<open>What an instantiation computes\<close>

text \<open>
  The \<open>Pin\<close> that an entry of \<open>PINS\<close> stands for once normalised, and the hook calls
  its normalisation makes.
\<close>

definition template :: "(string \<Rightarrow> string) \<Rightarrow> pin_entry \<Rightarrow> Pin" where
  "template up e =
     (case e of
        Long p \<Rightarrow> p
      | Sugar n \<Rightarrow> \<lparr>names = map up (case n of Name x \<Rightarrow> [x] | Names xs \<Rightarrow> xs),
                     numbers = None, type = UNKNOWN, well_name = None\<rparr>)"

definition template_hooks ::
  "(string \<Rightarrow> string) \<Rightarrow> plugin_cls list \<Rightarrow> pin_entry \<Rightarrow> (plugin_cls \<times> hook_obj) list" where
  "template_hooks up registry e =
     (case e of Long p \<Rightarrow> [] | Sugar n \<Rightarrow> map (\<lambda>g. (g, OPin (template up e))) registry)"

text \<open>
  The entry of \<open>PINS\<close> that an entry of a class body evaluates to, the hook calls of that
  evaluation, and the \<open>Pin\<close> the entry stands for in the end.
\<close>

definition entry :: "(string \<Rightarrow> string) \<Rightarrow> pin_expr \<Rightarrow> pin_entry" where
  "entry up x =
     (case x of
        Plain n \<Rightarrow> Sugar n
      | Pin_call n nums ty w \<Rightarrow>
          Long \<lparr>names = map up (case n of Name x \<Rightarrow> [x] | Names xs \<Rightarrow> xs),
                numbers = nums, type = ty, well_name = w\<rparr>)"

definition entry_hooks ::
  "(string \<Rightarrow> string) \<Rightarrow> plugin_cls list \<Rightarrow> pin_expr \<Rightarrow> (plugin_cls \<times> hook_obj) list" where
  "entry_hooks up registry x =
     (case x of
        Plain n \<Rightarrow> []
      | Pin_call n nums ty w \<Rightarrow> map (\<lambda>g. (g, OPin (template up (entry up x)))) registry)"

definition pin_of :: "(string \<Rightarrow> string) \<Rightarrow> pin_expr \<Rightarrow> Pin" where
  "pin_of up x = template up (entry up x)"

text \<open>
  The object \<open>Part.__init__\<close> starts from, and the state in which the second loop of
  \<open>_generate_pin_instances\<close> starts: the object allocated, the class's \<open>PINS\<close> normalised,
  the template hooks logged.
\<close>

definition part_obj ::
  "class_ref \<Rightarrow> string option \<Rightarrow> string option \<Rightarrow> string option \<Rightarrow> bool \<Rightarrow> state \<Rightarrow> Part" where
  "part_obj c v rd pk po s =
     \<lparr>cls = c,
      part_value = (case v of None \<Rightarrow> cls_value (classes s ! c) | Some x \<Rightarrow> x),
      refdes = rd,
      package = (case pk of None \<Rightarrow> cls_package (classes s ! c) | Some p \<Rightarrow> Some p),
      populated = po, pins = [], attrs = []\<rparr>"

definition before_pins ::
  "class_ref \<Rightarrow> string option \<Rightarrow> string option \<Rightarrow> string option \<Rightarrow> bool \<Rightarrow> state \<Rightarrow> state" where
  "before_pins c v rd pk po s =
     s\<lparr>parts := parts s @ [part_obj c v rd pk po s],
       classes := (classes s)[c := (classes s ! c)
                    \<lparr>PINS := map (Long \<circ> template (str_upper s)) (PINS (classes s ! c))\<rparr>],
       log := log s @ concat (map (template_hooks (str_upper s) (Pin_plugins s)) (PINS (classes s ! c)))\<rparr>"

text \<open>
  The bound pin built from template \<open>t\<close> at position \<open>i\<close> of part \<open>self\<close>, with well \<open>w\<close>.
\<close>

definition bound_pin :: "part_ref \<Rightarrow> nat \<Rightarrow> Pin \<Rightarrow> pin_ref option \<Rightarrow> ParticularPin" where
  "bound_pin self i t w =
     \<lparr>names = names t,
      numbers = (case numbers t of None \<Rightarrow> Some [str i] | Some ns \<Rightarrow> Some ns),
      type = type t, well_name = well_name t, part = self, well = w, p_net = None\<rparr>"

text \<open>
  The state after a fresh unnamed net was created and pin \<open>p\<close> entered in it with
  direction \<open>d\<close>.
\<close>

definition seeded :: "pin_ref \<Rightarrow> ConnectDirection \<Rightarrow> state \<Rightarrow> state" where
  "seeded p d s =
     s\<lparr>nets := nets s @ [\<lparr>name = None, connections = [(p, d)]\<rparr>],
       log := log s @ map (\<lambda>g. (g, ONet (length (nets s)))) (Net_plugins s),
       ppins := (ppins s)[p := (ppins s ! p)\<lparr>p_net := Some (length (nets s))\<rparr>]\<rparr>"

text \<open>
  How a well name \<open>w\<close> is looked up while the pins are built (\<open>up\<close> is \<open>str.upper\<close>). The pin
  map holds each pin under its first name, so the pin at position \<open>j\<close> of \<open>ts\<close> is \<open>kept\<close> in
  the map of the pins built from \<open>ts\<close> unless a later pin of \<open>ts\<close> has the same first name and
  has replaced it. A pin \<open>answers\<close> to \<open>w\<close> when its first name is \<open>up w\<close> (the dictionary
  lookup) or \<open>up (up w)\<close> is one of its names (the search through the other names).
  \<open>pin_map q ts m\<close> is the map \<open>m\<close> after the pins built from \<open>ts\<close>, the first of them at
  reference \<open>q\<close>, were stored in it.
\<close>

definition answers :: "(string \<Rightarrow> string) \<Rightarrow> string \<Rightarrow> Pin \<Rightarrow> bool" where
  "answers up w t \<longleftrightarrow> take 1 (names t) = [up w] \<or> up (up w) \<in> set (names t)"

definition kept :: "Pin list \<Rightarrow> nat \<Rightarrow> bool" where
  "kept ts j \<longleftrightarrow> take 1 (names (ts ! j)) \<notin> set (map (\<lambda>t. take 1 (names t)) (drop (Suc j) ts))"

fun pin_map :: "pin_ref \<Rightarrow> Pin list \<Rightarrow> (string \<times> pin_ref) list \<Rightarrow> (string \<times> pin_ref) list" where
  "pin_map q [] m = m"
| "pin_map q (t # ts) m = pin_map (Suc q) ts (od_set m (hd (names t)) q)"

subsection \<open>Relations between states\<close>

text \<open>
  \<open>keeps_nets\<close>: no pin is lost and no net field that is set changes.
  \<open>same_registries\<close>: the four plugin registries and \<open>str_upper\<close> are untouched.
  \<open>sizes_le\<close>: no object is lost.
\<close>

definition keeps_nets :: "state \<Rightarrow> state \<Rightarrow> bool" where
  "keeps_nets s s' \<longleftrightarrow>
     length (ppins s) \<le> length (ppins s') \<and>
     (\<forall>p < length (ppins s). \<forall>m. p_net (ppins s ! p) = Some m \<longrightarrow> p_net (ppins s' ! p) = Some m)"

definition same_registries :: "state \<Rightarrow> state \<Rightarrow> bool" where
  "same_registries s s' \<longleftrightarrow>
     Net_plugins s' = Net_plugins s \<and> Pin_plugins s' = Pin_plugins s \<and>
     ParticularPin_plugins s' = ParticularPin_plugins s \<and> Part_plugins s' = Part_plugins s \<and>
     str_upper s' = str_upper s"

definition sizes_le :: "state \<Rightarrow> state \<Rightarrow> bool" where
  "sizes_le s s' \<longleftrightarrow>
     length (nets s) \<le> length (nets s') \<and> length (ppins s) \<le> length (ppins s') \<and>
     length (parts s) \<le> length (parts s') \<and> length (classes s) \<le> length (classes s')"

subsection \<open>Graph invariants and scripts with valid references\<close>

text \<open>
  \<open>members_have_net n\<close>: every pin in the member map of net \<open>n\<close> has its net field set.
  \<open>graph_ok\<close>: that holds for every net, members are existing pins, and every pin whose
  net field is set is a member of that net.
\<close>

definition members_have_net :: "net_ref \<Rightarrow> state \<Rightarrow> bool" where
  "members_have_net n s \<longleftrightarrow> (\<forall>q \<in> fst ` set (connections (nets s ! n)). p_net (ppins s ! q) \<noteq> None)"

definition graph_ok :: "state \<Rightarrow> bool" where
  "graph_ok s \<longleftrightarrow>
     (\<forall>n < length (nets s). \<forall>q \<in> fst ` set (connections (nets s ! n)).
        q < length (ppins s) \<and> p_net (ppins s ! q) \<noteq> None) \<and>
     (\<forall>p < length (ppins s). \<forall>n. p_net (ppins s ! p) = Some n \<longrightarrow>
        n < length (nets s) \<and> p \<in> fst ` set (connections (nets s ! n)))"

text \<open>
  A Python script can only name objects that exist: a statement is admissible in a state
  when the references it mentions are allocated there.
\<close>

fun target_ok :: "state \<Rightarrow> connectable \<Rightarrow> bool" where
  "target_ok s (APart q) = (q < length (parts s))"
| "target_ok s (APin p) = (p < length (ppins s))"
| "target_ok s (ANet n) = (n < length (nets s))"
| "target_ok s Other = True"

definition targets_ok :: "state \<Rightarrow> targets \<Rightarrow> bool" where
  "targets_ok s ts = list_all (target_ok s) (maybe_single ts)"

fun stmt_ok :: "state \<Rightarrow> stmt \<Rightarrow> bool" where
  "stmt_ok s (SPlugin p bases) = True"
| "stmt_ok s (SClass c) = True"
| "stmt_ok s (SNet n) = True"
| "stmt_ok s (SPart c v r p b) = (c < length (classes s))"
| "stmt_ok s (SConnect n ts d t) = (n < length (nets s) \<and> targets_ok s ts)"
| "stmt_ok s (SNetLshift n ts) = (n < length (nets s) \<and> targets_ok s ts)"
| "stmt_ok s (SNetRshift n ts) = (n < length (nets s) \<and> targets_ok s ts)"
| "stmt_ok s (SPinLshift p ts) = (p < length (ppins s) \<and> targets_ok s ts)"
| "stmt_ok s (SPinRshift p ts) = (p < length (ppins s) \<and> targets_ok s ts)"
| "stmt_ok s (SGetNet p) = (p < length (ppins s))"

fun script_ok :: "stmt list \<Rightarrow> state \<Rightarrow> bool" where
  "script_ok [] s = True"
| "script_ok (c # cs) s = (stmt_ok s c \<and> script_ok cs (exec c s))"

subsection \<open>Example classes and states\<close>

text \<open>
  The examples contain ASCII strings only. On those \<open>str.upper\<close> maps the letters \<open>a\<close> to \<open>z\<close>
  to \<open>A\<close> to \<open>Z\<close> and leaves every other character as it is; the example states use this
  function as their \<open>str_upper\<close>.
\<close>

definition ascii_upper_char :: "char \<Rightarrow> char" where
  "ascii_upper_char c =
     (let n = (of_char c :: nat) in if 97 \<le> n \<and> n \<le> 122 then char_of (n - 32) else c)"

definition ascii_upper :: "string \<Rightarrow> string" where
  "ascii_upper s = map ascii_upper_char s"

definition empty_state :: state where
  "empty_state = init_state ascii_upper"

text \<open>
  A resistor with the pin list \<open>["a", "B"]\<close>, and the state after defining it, instantiating
  it once and creating the nets \<open>n1\<close> and \<open>N2\<close>.
\<close>

definition resistor :: class_stmt where
  "resistor = \<lparr>body_PINS = [Plain (Name ''a''), Plain (Name ''B'')], body_REFDES_PREFIX = ''R'',
               body_value = [], body_package = None\<rparr>"

definition demo_script :: "stmt list" where
  "demo_script = [SClass resistor, SPart 0 None None None True, SNet (Some ''n1''), SNet (Some ''N2'')]"

definition demo_state :: state where
  "demo_state = run demo_script empty_state"

text \<open>
  A part with exactly one \<open>PRIMARY\<close> pin and a net; a pin list that repeats an alias in
  another casing; a template with an empty sequence of numbers; a state with plugins
  registered on \<open>ParticularPin\<close> and on \<open>Part\<close>.
\<close>

definition one_primary :: class_stmt where
  "one_primary =
     \<lparr>body_PINS = [Pin_call (Name ''P'') None PRIMARY None, Plain (Name ''Q'')],
      body_REFDES_PREFIX = ''U'', body_value = [], body_package = None\<rparr>"

definition one_primary_state :: state where
  "one_primary_state = run [SClass one_primary, SPart 0 None None None True, SNet (Some ''N'')] empty_state"

definition twice_a :: class_stmt where
  "twice_a = \<lparr>body_PINS = [Plain (Name ''A''), Plain (Name ''a'')], body_REFDES_PREFIX = ''U'',
              body_value = [], body_package = None\<rparr>"

definition no_numbers :: class_stmt where
  "no_numbers =
     \<lparr>body_PINS = [Pin_call (Name ''A'') (Some []) UNKNOWN None],
      body_REFDES_PREFIX = ''U'', body_value = [], body_package = None\<rparr>"

definition watched_state :: state where
  "watched_state =
     run [SPlugin ''pin_watcher'' [ParticularPinC], SPlugin ''part_watcher'' [PartC],
          SPlugin ''late_watcher'' [PartC], SClass resistor] empty_state"

text \<open>
  Two parts with a signal pin that declares a well: in \<open>forward_well\<close> the power pin is declared
  after the signal pin; in \<open>well_part\<close> it is declared before it, and the well is named by the
  power pin's second alias, in lower case.
\<close>

definition forward_well :: class_stmt where
  "forward_well =
     \<lparr>body_PINS = [Pin_call (Name ''SIG'') None INPUT (Some ''PWR''),
                   Pin_call (Name ''PWR'') None POWER_INPUT None],
      body_REFDES_PREFIX = ''U'', body_value = [], body_package = None\<rparr>"

definition well_part :: class_stmt where
  "well_part =
     \<lparr>body_PINS = [Pin_call (Names [''VDD'', ''PWR'']) None POWER_INPUT None,
                   Pin_call (Name ''SIG'') None INPUT (Some ''pwr''),
                   Plain (Name ''out'')],
      body_REFDES_PREFIX = ''U'', body_value = [], body_package = None\<rparr>"

section \<open>Properties\<close>


subsection \<open>A net field that is set stays set\<close>

lemma connect_pin_fresh:
  "p_net (ppins s ! p) = None \<Longrightarrow>
   connect_pin n p d s =
     (Inr (), s\<lparr>nets := (nets s)[n := (nets s ! n)\<lparr>connections := od_set (connections (nets s ! n)) p d\<rparr>],
               ppins := (ppins s)[p := (ppins s ! p)\<lparr>p_net := Some n\<rparr>]\<rparr>)"
  by (simp add: connect_pin_def ParticularPin_net_set_def)

lemma connect_pin_taken:
  "p_net (ppins s ! p) = Some m \<Longrightarrow>
   connect_pin n p d s =
     (Inl PinAlreadyConnected,
      s\<lparr>nets := (nets s)[n := (nets s ! n)\<lparr>connections := od_set (connections (nets s ! n)) p d\<rparr>]\<rparr>)"
  by (simp add: connect_pin_def ParticularPin_net_set_def)

lemma Net_init_eq:
  "Net_init nm s = (length (nets s),
     s\<lparr>nets := nets s @ [\<lparr>name = map_option (str_upper s) nm, connections = []\<rparr>],
       log := log s @ map (\<lambda>p. (p, ONet (length (nets s)))) (Net_plugins s)\<rparr>)"
  by (simp add: Net_init_def run_hooks_def Let_def)

lemma keeps_nets_refl: "keeps_nets s s"
  by (simp add: keeps_nets_def)

lemma keeps_nets_trans: "keeps_nets s s' \<Longrightarrow> keeps_nets s' s'' \<Longrightarrow> keeps_nets s s''"
  unfolding keeps_nets_def by (meson le_trans less_le_trans)

lemma keeps_nets_same_pins: "ppins s' = ppins s \<Longrightarrow> keeps_nets s s'"
  by (simp add: keeps_nets_def)

lemma connect_pin_keeps: "keeps_nets s (snd (connect_pin n q d s))"
proof (cases "p_net (ppins s ! q)")
  case None
  then show ?thesis
    by (auto simp: connect_pin_fresh keeps_nets_def)
       (metis nth_list_update_neq option.distinct(1))
next
  case (Some m)
  then show ?thesis
    by (simp add: connect_pin_taken keeps_nets_def)
qed

lemma connect_one_keeps: "keeps_nets s (snd (connect_one n x d t s))"
  by (cases x) (simp_all add: connect_pin_keeps keeps_nets_refl Part_get_pin_to_connect_def)

lemma connect_loop_keeps: "keeps_nets s (snd (connect_loop n xs d t s))"
proof (induction xs arbitrary: s)
  case Nil
  show ?case by (simp add: keeps_nets_refl)
next
  case (Cons x xs)
  obtain r s1 where one: "connect_one n x d t s = (r, s1)"
    by (cases "connect_one n x d t s")
  have k1: "keeps_nets s s1"
    using connect_one_keeps [of s n x d t] one by simp
  show ?case
  proof (cases r)
    case (Inl e)
    with one k1 show ?thesis by simp
  next
    case (Inr u)
    with one have "snd (connect_loop n (x # xs) d t s) = snd (connect_loop n xs d t s1)"
      by simp
    with k1 Cons.IH [of s1] show ?thesis
      by (simp add: keeps_nets_trans)
  qed
qed

lemma Net_connect_keeps: "keeps_nets s (snd (Net_connect n ts d t s))"
  by (simp add: Net_connect_def connect_loop_keeps)

lemma Net_lshift_snd: "snd (Net_lshift n ts s) = snd (Net_connect n ts Dir_IN PRIMARY s)"
  by (simp add: Net_lshift_def split: prod.splits sum.splits)

lemma Net_rshift_snd: "snd (Net_rshift n ts s) = snd (Net_connect n ts Dir_OUT PRIMARY s)"
  by (simp add: Net_rshift_def split: prod.splits sum.splits)

lemma Net_init_keeps: "keeps_nets s (snd (Net_init nm s))"
  by (simp add: Net_init_eq keeps_nets_def)

lemma net_get_keeps: "keeps_nets s (snd (ParticularPin_net_get self s))"
proof (cases "p_net (ppins s ! self)")
  case None
  have "keeps_nets (snd (Net_init None s))
          (snd (Net_connect (length (nets s)) (Single (APin self)) Dir_UNKNOWN PRIMARY (snd (Net_init None s))))"
    by (rule Net_connect_keeps)
  then have "keeps_nets s
          (snd (Net_connect (length (nets s)) (Single (APin self)) Dir_UNKNOWN PRIMARY (snd (Net_init None s))))"
    using Net_init_keeps keeps_nets_trans by blast
  with None show ?thesis
    by (auto simp: ParticularPin_net_get_def Net_init_eq split: prod.splits sum.splits)
next
  case (Some m)
  then show ?thesis by (simp add: ParticularPin_net_get_def keeps_nets_refl)
qed

lemma via_net_snd:
  assumes "\<And>n s1. keeps_nets s1 (snd (net_op n others s1))"
  shows "keeps_nets s (snd (via_net net_op self others s))"
proof -
  obtain r s1 where eq: "ParticularPin_net_get self s = (r, s1)"
    by (cases "ParticularPin_net_get self s")
  with net_get_keeps [of s self] have k: "keeps_nets s s1" by simp
  show ?thesis
  proof (cases r)
    case (Inl e)
    with eq k show ?thesis by (simp add: via_net_def)
  next
    case (Inr v)
    show ?thesis
    proof (cases v)
      case None
      with Inr eq k show ?thesis by (simp add: via_net_def)
    next
      case (Some n)
      with Inr eq have "snd (via_net net_op self others s) = snd (net_op n others s1)"
        by (simp add: via_net_def)
      with k assms [of s1 n] show ?thesis
        by (simp add: keeps_nets_trans)
    qed
  qed
qed

subsection \<open>What an instantiation leaves untouched\<close>

lemma ParticularPin_init_cases:
  assumes "ParticularPin_init self t (if numbers t = None then Some (str i) else None) s = (r, s')"
  shows "(\<exists>e. r = Inl e \<and> s' = s) \<or>
         (\<exists>w. r = Inr (length (ppins s)) \<and> s' = s\<lparr>ppins := ppins s @ [bound_pin self i t w]\<rparr>)"
proof -
  show ?thesis
  proof (cases "well_name t")
    case None
    have "ParticularPin_init self t (if numbers t = None then Some (str i) else None) s =
            (Inr (length (ppins s)), s\<lparr>ppins := ppins s @ [bound_pin self i t None]\<rparr>)"
      using None by (cases "numbers t") (simp_all add: ParticularPin_init_def bound_pin_def Let_def)
    with assms show ?thesis by auto
  next
    case (Some wn)
    show ?thesis
    proof (cases "PinList_getitem (pins (parts s ! self)) (Alias wn) s")
      case (Inl e)
      have "ParticularPin_init self t (if numbers t = None then Some (str i) else None) s =
              (Inl (if e = UnknownPin then UnknownWellPin else e), s)"
        using Some Inl by (cases "numbers t") (simp_all add: ParticularPin_init_def Let_def)
      with assms show ?thesis by auto
    next
      case (Inr w)
      show ?thesis
      proof (cases "type (ppins s ! w) \<notin> {POWER_INPUT, POWER_OUTPUT}")
        case True
        have "ParticularPin_init self t (if numbers t = None then Some (str i) else None) s =
                (Inl InvalidWellPinType, s)"
          using Some Inr True by (cases "numbers t") (simp_all add: ParticularPin_init_def Let_def)
        with assms show ?thesis by auto
      next
        case False
        have "ParticularPin_init self t (if numbers t = None then Some (str i) else None) s =
                (Inr (length (ppins s)), s\<lparr>ppins := ppins s @ [bound_pin self i t (Some w)]\<rparr>)"
          using Some Inr False
          by (cases "numbers t") (simp_all add: ParticularPin_init_def bound_pin_def Let_def)
        with assms show ?thesis by auto
      qed
    qed
  qed
qed

lemma generate_loop_frame:
  "generate_loop self i ts s = (r, s') \<Longrightarrow>
     (\<exists>new. ppins s' = ppins s @ new \<and> length new \<le> length ts \<and>
            (\<forall>q \<in> set new. p_net q = None \<and> part q = self)) \<and>
     nets s' = nets s \<and> log s' = log s \<and> classes s' = classes s \<and>
     length (parts s') = length (parts s) \<and> same_registries s s'"
proof (induction ts arbitrary: i s)
  case Nil
  then show ?case by (simp add: same_registries_def)
next
  case (Cons t ts)
  note prem = Cons.prems
  note IH = Cons.IH
  obtain r1 s1 where init:
    "ParticularPin_init self t (if numbers t = None then Some (str i) else None) s = (r1, s1)"
    by (cases "ParticularPin_init self t (if numbers t = None then Some (str i) else None) s")
  from ParticularPin_init_cases [OF init] show ?case
  proof (elim disjE exE conjE)
    fix e assume "r1 = Inl e" "s1 = s"
    with init prem have "s' = s" by simp
    then show ?thesis by (simp add: same_registries_def)
  next
    fix w assume r1: "r1 = Inr (length (ppins s))"
      and s1: "s1 = s\<lparr>ppins := ppins s @ [bound_pin self i t w]\<rparr>"
    have nm1: "names (ppins s1 ! length (ppins s)) = names t"
      by (simp add: s1 bound_pin_def)
    show ?thesis
    proof (cases "names t")
      case Nil
      with init r1 nm1 prem have "s' = s1" by simp
      then show ?thesis
        by (simp add: s1 bound_pin_def same_registries_def)
    next
      case (Cons nm rest)
      define s2 where "s2 = s1\<lparr>parts := (parts s1)[self := (parts s1 ! self)
          \<lparr>pins := od_set (pins (parts s1 ! self)) nm (length (ppins s)),
           attrs := fold (\<lambda>name d. od_set d name (length (ppins s))) (names t) (attrs (parts s1 ! self))\<rparr>]\<rparr>"
      have loop: "generate_loop self (Suc i) ts s2 = (r, s')"
        using init r1 nm1 Cons prem by (simp add: s2_def Let_def)
      have f2: "ppins s2 = ppins s @ [bound_pin self i t w]" "nets s2 = nets s" "log s2 = log s"
        "classes s2 = classes s" "length (parts s2) = length (parts s)" "same_registries s s2"
        by (simp_all add: s2_def s1 same_registries_def)
      from IH [OF loop] obtain new where
        new: "ppins s' = ppins s2 @ new" "length new \<le> length ts"
             "\<forall>q \<in> set new. p_net q = None \<and> part q = self"
        and rest: "nets s' = nets s2" "log s' = log s2" "classes s' = classes s2"
             "length (parts s') = length (parts s2)" "same_registries s2 s'"
        by blast
      have a: "ppins s' = ppins s @ (bound_pin self i t w # new)"
        using new(1) f2(1) by simp
      have b: "\<forall>q \<in> set (bound_pin self i t w # new). p_net q = None \<and> part q = self"
        using new(3) by (simp add: bound_pin_def)
      have c: "length (bound_pin self i t w # new) \<le> length (t # ts)"
        using new(2) by simp
      have d: "same_registries s s'"
        using f2(6) rest(5) by (simp add: same_registries_def)
      from a b c have "\<exists>new. ppins s' = ppins s @ new \<and> length new \<le> length (t # ts) \<and>
            (\<forall>q \<in> set new. p_net q = None \<and> part q = self)"
        by blast
      with d rest f2 show ?thesis by simp
    qed
  qed
qed

lemma Pin_init_eq:
  "Pin_init n nums ty w s =
     (\<lparr>names = map (str_upper s) (case n of Name x \<Rightarrow> [x] | Names xs \<Rightarrow> xs), numbers = nums,
       type = ty, well_name = w\<rparr>,
      s\<lparr>log := log s @ map (\<lambda>g. (g, OPin \<lparr>names = map (str_upper s) (case n of Name x \<Rightarrow> [x] | Names xs \<Rightarrow> xs),
              numbers = nums, type = ty, well_name = w\<rparr>)) (Pin_plugins s)\<rparr>)"
  by (simp add: Pin_init_def run_hooks_def Let_def)

lemma eval_PINS_eq:
  "eval_PINS xs s =
     (map (entry (str_upper s)) xs,
      s\<lparr>log := log s @ concat (map (entry_hooks (str_upper s) (Pin_plugins s)) xs)\<rparr>)"
proof (induction xs arbitrary: s)
  case Nil
  show ?case by simp
next
  case (Cons x xs)
  show ?case
  proof (cases x)
    case (Plain n)
    then show ?thesis
      by (simp add: Cons.IH entry_def entry_hooks_def)
  next
    case (Pin_call n nums ty w)
    define s1 where "s1 = s\<lparr>log := log s @ entry_hooks (str_upper s) (Pin_plugins s) x\<rparr>"
    have reg: "Pin_plugins s1 = Pin_plugins s" "str_upper s1 = str_upper s" by (simp_all add: s1_def)
    have p: "Pin_init n nums ty w s = (template (str_upper s) (entry (str_upper s) x), s1)"
      using Pin_call by (simp add: Pin_init_eq s1_def entry_def entry_hooks_def template_def)
    have e: "Long (template (str_upper s) (entry (str_upper s) x)) = entry (str_upper s) x"
      using Pin_call by (simp add: entry_def template_def)
    have "eval_PINS (x # xs) s =
            (entry (str_upper s) x # fst (eval_PINS xs s1), snd (eval_PINS xs s1))"
      using Pin_call by (simp add: p [unfolded Pin_call] e [unfolded Pin_call] split: prod.splits)
    also have "eval_PINS xs s1 =
            (map (entry (str_upper s)) xs,
             s1\<lparr>log := log s1 @ concat (map (entry_hooks (str_upper s) (Pin_plugins s)) xs)\<rparr>)"
      using Cons.IH [of s1] reg by simp
    finally show ?thesis
      by (simp add: s1_def)
  qed
qed

lemma class_def_eq:
  "class_def k s =
     (length (classes s),
      s\<lparr>log := log s @ concat (map (entry_hooks (str_upper s) (Pin_plugins s)) (body_PINS k)),
        classes := classes s @
          [\<lparr>PINS = map (entry (str_upper s)) (body_PINS k), REFDES_PREFIX = body_REFDES_PREFIX k,
            cls_value = body_value k, cls_package = body_package k\<rparr>]\<rparr>)"
  by (simp add: class_def_def eval_PINS_eq)

lemma normalize_PINS_frame:
  "normalize_PINS es s = (ps, s') \<Longrightarrow>
     ppins s' = ppins s \<and> nets s' = nets s \<and> parts s' = parts s \<and> classes s' = classes s \<and>
     same_registries s s'"
proof (induction es arbitrary: s ps s')
  case Nil
  then show ?case by (simp add: same_registries_def)
next
  case (Cons e es)
  show ?case
  proof (cases e)
    case (Long p)
    obtain ps1 s1 where r: "normalize_PINS es s = (ps1, s1)"
      by (cases "normalize_PINS es s")
    with Cons.prems Long have "s' = s1" by simp
    with Cons.IH [OF r] show ?thesis by simp
  next
    case (Sugar n)
    define s0 where "s0 = snd (Pin_init n None UNKNOWN None s)"
    obtain ps1 s1 where r: "normalize_PINS es s0 = (ps1, s1)"
      by (cases "normalize_PINS es s0")
    have "s' = s1"
      using Cons.prems Sugar r by (simp add: s0_def split: prod.splits)
    moreover have "ppins s0 = ppins s" "nets s0 = nets s" "parts s0 = parts s"
      "classes s0 = classes s" "same_registries s s0"
      by (simp_all add: s0_def Pin_init_eq same_registries_def)
    ultimately show ?thesis
      using Cons.IH [OF r] by (simp add: same_registries_def)
  qed
qed

lemma Part_generate_frame:
  assumes "Part_generate_pin_instances self s = (r, s')"
  shows "(\<exists>new. ppins s' = ppins s @ new \<and> (\<forall>q \<in> set new. p_net q = None \<and> part q = self)) \<and>
         nets s' = nets s \<and> length (parts s') = length (parts s) \<and>
         length (classes s') = length (classes s) \<and> same_registries s s'"
proof -
  define c where "c = cls (parts s ! self)"
  obtain ps s1 where n: "normalize_PINS (PINS (classes s ! c)) s = (ps, s1)"
    by (cases "normalize_PINS (PINS (classes s ! c)) s")
  define s3 where "s3 = s1\<lparr>classes := (classes s1)[c := (classes s1 ! c)\<lparr>PINS := map Long ps\<rparr>],
                            parts := (parts s1)[self := (parts s1 ! self)\<lparr>pins := []\<rparr>]\<rparr>"
  have loop: "generate_loop self 0 ps s3 = (r, s')"
    using assms n by (simp add: Part_generate_pin_instances_def c_def s3_def Let_def)
  from normalize_PINS_frame [OF n]
  have f3: "ppins s3 = ppins s" "nets s3 = nets s" "length (parts s3) = length (parts s)"
    "length (classes s3) = length (classes s)" "same_registries s s3"
    by (simp_all add: s3_def same_registries_def)
  from generate_loop_frame [OF loop] f3 show ?thesis
    by (auto simp: same_registries_def)
qed

lemma Part_init_frame:
  assumes "Part_init c v rd pk po s = (r, s')"
  shows "(\<exists>new. ppins s' = ppins s @ new \<and>
               (\<forall>q \<in> set new. p_net q = None \<and> part q = length (parts s))) \<and>
         nets s' = nets s \<and> length (parts s') = Suc (length (parts s)) \<and>
         length (classes s') = length (classes s) \<and> same_registries s s'"
proof -
  define obj where "obj = \<lparr>cls = c,
                 part_value = (case v of None \<Rightarrow> cls_value (classes s ! c) | Some x \<Rightarrow> x),
                 refdes = rd,
                 package = (case pk of None \<Rightarrow> cls_package (classes s ! c) | Some p \<Rightarrow> Some p),
                 populated = po, pins = [], attrs = []\<rparr>"
  define s0 where "s0 = s\<lparr>parts := parts s @ [obj]\<rparr>"
  obtain r1 s1 where g: "Part_generate_pin_instances (length (parts s)) s0 = (r1, s1)"
    by (cases "Part_generate_pin_instances (length (parts s)) s0")
  have f0: "ppins s0 = ppins s" "nets s0 = nets s" "length (parts s0) = Suc (length (parts s))"
    "length (classes s0) = length (classes s)" "same_registries s s0"
    by (simp_all add: s0_def same_registries_def)
  have s': "s' = s1 \<or> s' = run_hooks (Part_plugins s1) (OPart (length (parts s))) s1"
    using assms g by (cases r1) (simp_all add: Part_init_def Let_def obj_def s0_def)
  from Part_generate_frame [OF g] f0 s' show ?thesis
    by (auto simp: same_registries_def run_hooks_def)
qed

lemma append_keeps: "ppins s' = ppins s @ new \<Longrightarrow> keeps_nets s s'"
  by (simp add: keeps_nets_def nth_append)

lemma Part_init_keeps: "keeps_nets s (snd (Part_init c v rd pk po s))"
proof -
  obtain r s' where e: "Part_init c v rd pk po s = (r, s')"
    by (cases "Part_init c v rd pk po s")
  from Part_init_frame [OF e] obtain new where "ppins s' = ppins s @ new"
    by blast
  then show ?thesis using e by (simp add: append_keeps)
qed

lemma register_ppins: "ppins (register g b s) = ppins s" "nets (register g b s) = nets s"
  by (cases b; simp add: register_def)+

lemma plugin_ppins: "ppins (plugin g bs s) = ppins s \<and> nets (plugin g bs s) = nets s"
  unfolding plugin_def by (induction bs arbitrary: s) (simp_all add: register_ppins)

lemma Net_lshift_keeps: "keeps_nets s (snd (Net_lshift n ts s))"
  by (simp add: Net_lshift_snd Net_connect_keeps)

lemma Net_rshift_keeps: "keeps_nets s (snd (Net_rshift n ts s))"
  by (simp add: Net_rshift_snd Net_connect_keeps)

lemma pin_lshift_keeps: "keeps_nets s (snd (ParticularPin_lshift p ts s))"
proof (cases "p_net (ppins s ! p)")
  case None
  define s1 where "s1 = snd (Net_init None s)"
  obtain r s2 where e: "Net_rshift (length (nets s)) (Single (APin p)) s1 = (r, s2)"
    by (cases "Net_rshift (length (nets s)) (Single (APin p)) s1")
  have "keeps_nets s s1" by (simp add: s1_def Net_init_keeps)
  moreover have "keeps_nets s1 s2" using Net_rshift_keeps [of s1 "length (nets s)" "Single (APin p)"] e by simp
  ultimately have k: "keeps_nets s s2" by (rule keeps_nets_trans)
  have "keeps_nets s2 (snd (via_net Net_lshift p ts s2))"
    by (rule via_net_snd) (rule Net_lshift_keeps)
  with k have "keeps_nets s (snd (via_net Net_lshift p ts s2))" by (rule keeps_nets_trans)
  with k None e show ?thesis
    by (cases r) (simp_all add: ParticularPin_lshift_def Net_init_eq s1_def)
next
  case (Some m)
  have "keeps_nets s (snd (via_net Net_lshift p ts s))"
    by (rule via_net_snd) (rule Net_lshift_keeps)
  with Some show ?thesis by (simp add: ParticularPin_lshift_def)
qed

lemma pin_rshift_keeps: "keeps_nets s (snd (ParticularPin_rshift p ts s))"
proof (cases "p_net (ppins s ! p)")
  case None
  define s1 where "s1 = snd (Net_init None s)"
  obtain r s2 where e: "Net_lshift (length (nets s)) (Single (APin p)) s1 = (r, s2)"
    by (cases "Net_lshift (length (nets s)) (Single (APin p)) s1")
  have "keeps_nets s s1" by (simp add: s1_def Net_init_keeps)
  moreover have "keeps_nets s1 s2" using Net_lshift_keeps [of s1 "length (nets s)" "Single (APin p)"] e by simp
  ultimately have k: "keeps_nets s s2" by (rule keeps_nets_trans)
  have "keeps_nets s2 (snd (via_net Net_rshift p ts s2))"
    by (rule via_net_snd) (rule Net_rshift_keeps)
  with k have "keeps_nets s (snd (via_net Net_rshift p ts s2))" by (rule keeps_nets_trans)
  with k None e show ?thesis
    by (cases r) (simp_all add: ParticularPin_rshift_def Net_init_eq s1_def)
next
  case (Some m)
  have "keeps_nets s (snd (via_net Net_rshift p ts s))"
    by (rule via_net_snd) (rule Net_rshift_keeps)
  with Some show ?thesis by (simp add: ParticularPin_rshift_def)
qed

lemma exec_keeps: "keeps_nets s (exec c s)"
proof (cases c)
  case (SPlugin g bs)
  then show ?thesis by (simp add: keeps_nets_same_pins plugin_ppins)
next
  case (SClass k)
  then show ?thesis by (simp add: keeps_nets_same_pins class_def_eq)
next
  case (SNet n)
  then show ?thesis by (simp add: Net_init_keeps)
next
  case (SPart k v r p b)
  then show ?thesis by (simp add: Part_init_keeps)
next
  case (SConnect n ts d t)
  then show ?thesis by (simp add: Net_connect_keeps)
next
  case (SNetLshift n ts)
  then show ?thesis by (simp add: Net_lshift_keeps)
next
  case (SNetRshift n ts)
  then show ?thesis by (simp add: Net_rshift_keeps)
next
  case (SPinLshift p ts)
  then show ?thesis by (simp add: pin_lshift_keeps)
next
  case (SPinRshift p ts)
  then show ?thesis by (simp add: pin_rshift_keeps)
next
  case (SGetNet p)
  then show ?thesis by (simp add: net_get_keeps)
qed

lemma run_keeps: "keeps_nets s (run script s)"
  unfolding run_def
proof (induction script arbitrary: s)
  case Nil
  show ?case by (simp add: keeps_nets_refl)
next
  case (Cons c cs)
  have "keeps_nets s (exec c s)" by (rule exec_keeps)
  moreover have "keeps_nets (exec c s) (fold exec cs (exec c s))" by (rule Cons.IH)
  ultimately show ?case by (simp add: keeps_nets_trans)
qed

subsection \<open>The net property, the operators and reconnection\<close>

lemma upper_simps:
  "ascii_upper ''a'' = ''A''" "ascii_upper ''B'' = ''B''" "ascii_upper ''n1'' = ''N1''"
  "ascii_upper ''N2'' = ''N2''"
  by code_simp+

lemma str_simps: "str 0 = ''0''" "str (Suc 0) = ''1''" "str 2 = ''2''"
  by code_simp+

lemma demo_state_eq:
  "demo_state =
     \<lparr>classes = [\<lparr>PINS = [Long \<lparr>names = [''A''], numbers = None, type = UNKNOWN, well_name = None\<rparr>,
                          Long \<lparr>names = [''B''], numbers = None, type = UNKNOWN, well_name = None\<rparr>],
                  REFDES_PREFIX = ''R'', cls_value = [], cls_package = None\<rparr>],
      parts = [\<lparr>cls = 0, part_value = [], refdes = None, package = None, populated = True,
                pins = [(''A'', 0), (''B'', 1)], attrs = [(''A'', 0), (''B'', 1)]\<rparr>],
      ppins = [\<lparr>names = [''A''], numbers = Some [''0''], type = UNKNOWN, well_name = None,
                 part = 0, well = None, p_net = None\<rparr>,
               \<lparr>names = [''B''], numbers = Some [''1''], type = UNKNOWN, well_name = None,
                 part = 0, well = None, p_net = None\<rparr>],
      nets = [\<lparr>name = Some ''N1'', connections = []\<rparr>, \<lparr>name = Some ''N2'', connections = []\<rparr>],
      Net_plugins = [], Pin_plugins = [], ParticularPin_plugins = [], Part_plugins = [],
      log = [], str_upper = ascii_upper\<rparr>"
  by (simp add: demo_state_def demo_script_def run_def empty_state_def init_state_def resistor_def class_def_def
      Part_init_def Part_generate_pin_instances_def Pin_init_eq ParticularPin_init_def
      Net_init_eq run_hooks_def str_simps upper_simps Let_def)

text \<open>
  Claim C10. Reading the \<open>net\<close> property of a pin whose \<open>_net\<close> is unset mutates the
  graph: a new unnamed net is appended (its hooks fire), the pin is entered in it with
  direction \<open>UNKNOWN\<close>, the pin's \<open>_net\<close> becomes that net, and the net is returned.
  A pin that has a net gets it back with the state untouched. In both cases the getter
  returns a net, never \<open>None\<close>.
\<close>

theorem net_getter_creates_net:
  assumes "p < length (ppins s)"
  shows "(p_net (ppins s ! p) = None \<longrightarrow>
           ParticularPin_net_get p s =
             (Inr (Some (length (nets s))),
              s\<lparr>nets := nets s @ [\<lparr>name = None, connections = [(p, Dir_UNKNOWN)]\<rparr>],
                log := log s @ map (\<lambda>g. (g, ONet (length (nets s)))) (Net_plugins s),
                ppins := (ppins s)[p := (ppins s ! p)\<lparr>p_net := Some (length (nets s))\<rparr>]\<rparr>))
       \<and> (\<forall>n. p_net (ppins s ! p) = Some n \<longrightarrow> ParticularPin_net_get p s = (Inr (Some n), s))
       \<and> (\<exists>n. fst (ParticularPin_net_get p s) = Inr (Some n))"
  using assms
  by (cases "p_net (ppins s ! p)")
     (simp_all add: ParticularPin_net_get_def Net_init_eq Net_connect_def connect_pin_fresh)

theorem net_getter_creates_net_witness:
  "(0::nat) < length (ppins demo_state) \<and> p_net (ppins demo_state ! 0) = None \<and>
   fst (ParticularPin_net_get 0 demo_state) = Inr (Some 2) \<and>
   nets (snd (ParticularPin_net_get 0 demo_state)) ! 2 = \<lparr>name = None, connections = [(0, Dir_UNKNOWN)]\<rparr> \<and>
   p_net (ppins (snd (ParticularPin_net_get 0 demo_state)) ! 0) = Some 2"
  using net_getter_creates_net [of 0 demo_state]
  by (simp add: demo_state_eq)

lemma seeded_get:
  "p < length (ppins s) \<Longrightarrow> p_net (ppins s ! p) = Some n \<Longrightarrow>
   via_net net_op p others s = net_op n others s"
  by (simp add: via_net_def ParticularPin_net_get_def)

text \<open>
  Claim C5. A directional operator on a pin without a net first creates an unnamed net
  holding exactly that pin with the opposite tag (\<open><<\<close> records the pin as \<open>OUT\<close>, \<open>>>\<close> as
  \<open>IN\<close>), then runs the net's operator on that net. A pin that already has a net goes
  straight to the operator of its net: nothing is created.
\<close>

theorem pin_operator_seeds_opposite:
  assumes "p < length (ppins s)"
  shows "(p_net (ppins s ! p) = None \<longrightarrow>
            ParticularPin_lshift p others s = Net_lshift (length (nets s)) others (seeded p Dir_OUT s) \<and>
            ParticularPin_rshift p others s = Net_rshift (length (nets s)) others (seeded p Dir_IN s))
       \<and> (\<forall>n. p_net (ppins s ! p) = Some n \<longrightarrow>
            ParticularPin_lshift p others s = Net_lshift n others s \<and>
            ParticularPin_rshift p others s = Net_rshift n others s)"
proof (cases "p_net (ppins s ! p)")
  case None
  have l: "Net_rshift (length (nets s)) (Single (APin p)) (snd (Net_init None s)) =
           (Inr (length (nets s)), seeded p Dir_OUT s)"
    using None assms by (simp add: Net_rshift_def Net_connect_def Net_init_eq connect_pin_fresh seeded_def)
  have r: "Net_lshift (length (nets s)) (Single (APin p)) (snd (Net_init None s)) =
           (Inr (length (nets s)), seeded p Dir_IN s)"
    using None assms by (simp add: Net_lshift_def Net_connect_def Net_init_eq connect_pin_fresh seeded_def)
  have g: "p < length (ppins (seeded p d s))" "p_net (ppins (seeded p d s) ! p) = Some (length (nets s))" for d
    using assms by (simp_all add: seeded_def)
  have "ParticularPin_lshift p others s = via_net Net_lshift p others (seeded p Dir_OUT s)"
    using None l by (simp add: ParticularPin_lshift_def Net_init_eq)
  moreover have "ParticularPin_rshift p others s = via_net Net_rshift p others (seeded p Dir_IN s)"
    using None r by (simp add: ParticularPin_rshift_def Net_init_eq)
  ultimately show ?thesis
    using None g by (simp add: seeded_get)
next
  case (Some n)
  with assms show ?thesis
    by (simp add: ParticularPin_lshift_def ParticularPin_rshift_def seeded_get)
qed

theorem pin_operator_seeds_opposite_witness:
  "(0::nat) < length (ppins demo_state) \<and> p_net (ppins demo_state ! 0) = None \<and>
   ParticularPin_lshift 0 (Single (APin 1)) demo_state =
     Net_lshift 2 (Single (APin 1)) (seeded 0 Dir_OUT demo_state) \<and>
   connections (nets (snd (ParticularPin_lshift 0 (Single (APin 1)) demo_state)) ! 2) =
     [(0, Dir_OUT), (1, Dir_IN)] \<and>
   connections (nets (snd (ParticularPin_rshift 0 (Single (APin 1)) demo_state)) ! 2) =
     [(0, Dir_IN), (1, Dir_OUT)]"
  using pin_operator_seeds_opposite [of 0 demo_state "Single (APin 1)"]
  by (simp add: demo_state_eq seeded_def Net_lshift_def Net_rshift_def Net_connect_def connect_pin_fresh)

text \<open>
  Claim C1. Once a connect of pin \<open>p\<close> into net \<open>n1\<close> has succeeded, then after any script
  whatever, connecting \<open>p\<close> into any net \<open>n2\<close> (the same or another) with any direction
  fails with \<open>PinAlreadyConnected\<close>, and the pin's net is still \<open>n1\<close> afterwards.
\<close>

theorem second_connect_rejected:
  assumes "p < length (ppins s0)"
    and "Net_connect n1 (Single (APin p)) d1 t1 s0 = (Inr (), s1)"
  shows "p_net (ppins s1 ! p) = Some n1 \<and>
         (\<forall>script n2 d2 t2.
            fst (Net_connect n2 (Single (APin p)) d2 t2 (run script s1)) = Inl PinAlreadyConnected \<and>
            p_net (ppins (snd (Net_connect n2 (Single (APin p)) d2 t2 (run script s1))) ! p) = Some n1)"
proof -
  have free: "p_net (ppins s0 ! p) = None"
  proof (cases "p_net (ppins s0 ! p)")
    case (Some m)
    with assms(2) show ?thesis by (simp add: Net_connect_def connect_pin_taken)
  qed simp
  with assms have set1: "p_net (ppins s1 ! p) = Some n1" and len1: "p < length (ppins s1)"
    by (auto simp: Net_connect_def connect_pin_fresh)
  have later: "p_net (ppins (run script s1) ! p) = Some n1" for script
    using run_keeps [of s1 script] set1 len1 by (simp add: keeps_nets_def)
  have "fst (Net_connect n2 (Single (APin p)) d2 t2 (run script s1)) = Inl PinAlreadyConnected \<and>
        p_net (ppins (snd (Net_connect n2 (Single (APin p)) d2 t2 (run script s1))) ! p) = Some n1"
    for script n2 d2 t2
    using later [of script] by (simp add: Net_connect_def connect_pin_taken)
  with set1 show ?thesis by blast
qed

theorem second_connect_rejected_witness:
  "(0::nat) < length (ppins demo_state) \<and>
   fst (Net_connect 0 (Single (APin 0)) Dir_IN PRIMARY demo_state) = Inr () \<and>
   fst (Net_connect 1 (Single (APin 0)) Dir_IN PRIMARY
          (run [SNet None] (snd (Net_connect 0 (Single (APin 0)) Dir_IN PRIMARY demo_state))))
     = Inl PinAlreadyConnected \<and>
   p_net (ppins (snd (Net_connect 1 (Single (APin 0)) Dir_IN PRIMARY
          (run [SNet None] (snd (Net_connect 0 (Single (APin 0)) Dir_IN PRIMARY demo_state))))) ! 0)
     = Some 0"
proof -
  have a: "(0::nat) < length (ppins demo_state)"
    by (simp add: demo_state_eq)
  have b: "Net_connect 0 (Single (APin 0)) Dir_IN PRIMARY demo_state =
           (Inr (), snd (Net_connect 0 (Single (APin 0)) Dir_IN PRIMARY demo_state))"
    by (simp add: demo_state_eq Net_connect_def connect_pin_fresh)
  from second_connect_rejected [OF a b] a b show ?thesis
    by (metis fst_conv)
qed

text \<open>
  Claim C2. \<open>Net.connect\<close> writes the member entry (line 89) before the setter checks the
  pin (line 90). On the state with pins \<open>A\<close>, \<open>B\<close> and nets \<open>N1\<close>, \<open>N2\<close>: after \<open>A\<close> has gone
  into \<open>N1\<close>, the rejected connect of \<open>A\<close> into \<open>N2\<close> leaves \<open>A\<close> in the member maps of both
  nets, while the pin's net is \<open>N1\<close> only.
\<close>

theorem failed_connect_leaves_stale_member:
  "let s1 = snd (Net_connect 0 (Single (APin 0)) Dir_IN PRIMARY demo_state);
       (r, s2) = Net_connect 1 (Single (APin 0)) Dir_IN PRIMARY s1
   in r = Inl PinAlreadyConnected \<and> p_net (ppins s2 ! 0) = Some 0 \<and>
      connections (nets s2 ! 0) = [(0, Dir_IN)] \<and> connections (nets s2 ! 1) = [(0, Dir_IN)]"
  by (simp add: demo_state_eq Net_connect_def connect_pin_fresh connect_pin_taken)

subsection \<open>Instantiation as one run of the pin loop\<close>

lemma template_hooks_Long: "template_hooks up reg (Long p) = []"
  by (simp add: template_hooks_def)

lemma template_hooks_Sugar:
  "template_hooks up reg (Sugar n) = map (\<lambda>g. (g, OPin (template up (Sugar n)))) reg"
  by (simp add: template_hooks_def)

lemma Pin_init_sugar:
  "Pin_init n None UNKNOWN None s =
     (template (str_upper s) (Sugar n),
      s\<lparr>log := log s @ template_hooks (str_upper s) (Pin_plugins s) (Sugar n)\<rparr>)"
  by (simp add: Pin_init_eq template_hooks_Sugar) (simp add: template_def)

lemma normalize_PINS_eq:
  "normalize_PINS es s =
     (map (template (str_upper s)) es,
      s\<lparr>log := log s @ concat (map (template_hooks (str_upper s) (Pin_plugins s)) es)\<rparr>)"
proof (induction es arbitrary: s)
  case Nil
  show ?case by simp
next
  case (Cons e es)
  show ?case
  proof (cases e)
    case (Long p)
    then show ?thesis
      by (simp add: Cons.IH template_hooks_Long) (simp add: template_def)
  next
    case (Sugar n)
    define s1 where "s1 = s\<lparr>log := log s @ template_hooks (str_upper s) (Pin_plugins s) (Sugar n)\<rparr>"
    have reg: "Pin_plugins s1 = Pin_plugins s" "str_upper s1 = str_upper s" by (simp_all add: s1_def)
    have "normalize_PINS (e # es) s =
            (template (str_upper s) (Sugar n) # fst (normalize_PINS es s1), snd (normalize_PINS es s1))"
      using Sugar by (simp add: Pin_init_sugar s1_def split: prod.splits)
    also have "normalize_PINS es s1 =
            (map (template (str_upper s)) es,
             s1\<lparr>log := log s1 @ concat (map (template_hooks (str_upper s) (Pin_plugins s)) es)\<rparr>)"
      using Cons.IH [of s1] reg by simp
    finally show ?thesis
      using Sugar by (simp add: s1_def)
  qed
qed

lemma Part_generate_unfold:
  "Part_generate_pin_instances (length (parts s)) (s\<lparr>parts := parts s @ [part_obj c v rd pk po s]\<rparr>) =
     generate_loop (length (parts s)) 0 (map (template (str_upper s)) (PINS (classes s ! c))) (before_pins c v rd pk po s)"
proof -
  have "(s\<lparr>parts := parts s @ [part_obj c v rd pk po s]\<rparr>)
          \<lparr>log := log s @ concat (map (template_hooks (str_upper s) (Pin_plugins s)) (PINS (classes s ! c))),
           classes := (classes s)[c := (classes s ! c)\<lparr>PINS := map Long (map (template (str_upper s)) (PINS (classes s ! c)))\<rparr>],
           parts := (parts s @ [part_obj c v rd pk po s])[length (parts s) :=
                      (part_obj c v rd pk po s)\<lparr>pins := []\<rparr>]\<rparr> =
        before_pins c v rd pk po s"
    by (rule state.equality) (simp_all add: before_pins_def part_obj_def)
  then show ?thesis
    by (simp add: Part_generate_pin_instances_def normalize_PINS_eq Let_def part_obj_def)
qed

lemma Part_init_unfold:
  "Part_init c v rd pk po s =
     (case generate_loop (length (parts s)) 0 (map (template (str_upper s)) (PINS (classes s ! c)))
             (before_pins c v rd pk po s) of
        (Inl e, s') \<Rightarrow> (Inl e, s')
      | (Inr u, s') \<Rightarrow>
          (Inr (length (parts s)),
           s'\<lparr>log := log s' @ map (\<lambda>g. (g, OPart (length (parts s)))) (Part_plugins s')\<rparr>))"
proof -
  have "Part_init c v rd pk po s =
     (case Part_generate_pin_instances (length (parts s)) (s\<lparr>parts := parts s @ [part_obj c v rd pk po s]\<rparr>) of
        (Inl e, s') \<Rightarrow> (Inl e, s')
      | (Inr u, s') \<Rightarrow> (Inr (length (parts s)), run_hooks (Part_plugins s') (OPart (length (parts s))) s'))"
    by (simp add: Part_init_def part_obj_def Let_def)
  then show ?thesis
    by (simp add: Part_generate_unfold run_hooks_def split: prod.splits sum.splits)
qed

lemma ParticularPin_init_no_well:
  "well_name t = None \<Longrightarrow>
   ParticularPin_init self t (if numbers t = None then Some (str i) else None) s =
     (Inr (length (ppins s)), s\<lparr>ppins := ppins s @ [bound_pin self i t None]\<rparr>)"
  by (cases "numbers t") (simp_all add: ParticularPin_init_def bound_pin_def Let_def)

lemma generate_loop_ok:
  "\<forall>t \<in> set ts. names t \<noteq> [] \<and> well_name t = None \<Longrightarrow> fst (generate_loop self i ts s) = Inr ()"
proof (induction ts arbitrary: i s)
  case Nil
  show ?case by simp
next
  case (Cons t ts)
  from Cons.prems obtain nm rest where nm: "names t = nm # rest"
    by (cases "names t") auto
  from Cons.prems have w: "well_name t = None" by simp
  from Cons.prems have tl: "\<forall>t \<in> set ts. names t \<noteq> [] \<and> well_name t = None" by simp
  show ?case
    using Cons.IH [OF tl]
    by (simp add: ParticularPin_init_no_well [OF w] bound_pin_def nm Let_def)
qed

lemma generate_loop_pins:
  "generate_loop self i ts s = (Inr (), s') \<Longrightarrow>
     length (ppins s') = length (ppins s) + length ts \<and>
     (\<forall>k < length ts. \<exists>w. ppins s' ! (length (ppins s) + k) = bound_pin self (i + k) (ts ! k) w) \<and>
     (\<forall>q < length (ppins s). ppins s' ! q = ppins s ! q)"
proof (induction ts arbitrary: i s)
  case Nil
  then show ?case by simp
next
  case (Cons t ts)
  note prem = Cons.prems
  note IH = Cons.IH
  obtain r1 s1 where init:
    "ParticularPin_init self t (if numbers t = None then Some (str i) else None) s = (r1, s1)"
    by (cases "ParticularPin_init self t (if numbers t = None then Some (str i) else None) s")
  from ParticularPin_init_cases [OF init] show ?case
  proof (elim disjE exE conjE)
    fix e assume "r1 = Inl e" "s1 = s"
    with init prem show ?thesis by simp
  next
    fix w assume r1: "r1 = Inr (length (ppins s))"
      and s1: "s1 = s\<lparr>ppins := ppins s @ [bound_pin self i t w]\<rparr>"
    have nm1: "names (ppins s1 ! length (ppins s)) = names t"
      by (simp add: s1 bound_pin_def)
    show ?thesis
    proof (cases "names t")
      case Nil
      with init r1 nm1 prem show ?thesis by simp
    next
      case (Cons nm rest)
      define s2 where "s2 = s1\<lparr>parts := (parts s1)[self := (parts s1 ! self)
          \<lparr>pins := od_set (pins (parts s1 ! self)) nm (length (ppins s)),
           attrs := fold (\<lambda>name d. od_set d name (length (ppins s))) (names t) (attrs (parts s1 ! self))\<rparr>]\<rparr>"
      have loop: "generate_loop self (Suc i) ts s2 = (Inr (), s')"
        using init r1 nm1 Cons prem by (simp add: s2_def Let_def)
      have p2: "ppins s2 = ppins s @ [bound_pin self i t w]"
        by (simp add: s2_def s1)
      from IH [OF loop] have
        len: "length (ppins s') = length (ppins s2) + length ts"
        and new: "\<forall>k < length ts. \<exists>w. ppins s' ! (length (ppins s2) + k) = bound_pin self (Suc i + k) (ts ! k) w"
        and old: "\<forall>q < length (ppins s2). ppins s' ! q = ppins s2 ! q"
        by blast+
      have a: "length (ppins s') = length (ppins s) + length (t # ts)"
        using len p2 by simp
      have b: "\<exists>w. ppins s' ! (length (ppins s) + k) = bound_pin self (i + k) ((t # ts) ! k) w"
        if k: "k < length (t # ts)" for k
      proof (cases k)
        case 0
        have "ppins s' ! length (ppins s) = ppins s2 ! length (ppins s)"
          using old p2 by simp
        with 0 p2 show ?thesis by auto
      next
        case (Suc j)
        with k have "j < length ts" by simp
        with new obtain w' where "ppins s' ! (length (ppins s2) + j) = bound_pin self (Suc i + j) (ts ! j) w'"
          by blast
        with Suc p2 show ?thesis by auto
      qed
      have c: "ppins s' ! q = ppins s ! q" if "q < length (ppins s)" for q
        using old p2 that by (simp add: nth_append)
      from a b c show ?thesis by blast
    qed
  qed
qed

subsection \<open>Part targets, aliases, numbers and hooks\<close>

text \<open>
  Claim C3, as stated, fails: the part of \<open>one_primary_state\<close> has exactly one pin of type
  \<open>PRIMARY\<close>, and connecting the part for \<open>PRIMARY\<close> does not succeed.
\<close>

theorem part_target_counterexample:
  "map part (ppins one_primary_state) = [0, 0] \<and>
   map type (ppins one_primary_state) = [PRIMARY, UNKNOWN] \<and>
   fst (Net_connect 0 (Single (APart 0)) Dir_IN PRIMARY one_primary_state) = Inl NoSuchPinType"
  by code_simp

text \<open>
  Claim C3, amended. A Part as connect target is resolved by \<open>Part.get_pin_to_connect\<close>,
  which in base.py selects no pin: whatever pins the part has and whatever type is asked
  for, the connect fails with the method's explicit error and leaves the graph as it was.
\<close>

theorem part_target_not_resolved:
  "Net_connect n (Single (APart q)) d t s = (Inl NoSuchPinType, s)"
  by (simp add: Net_connect_def Part_get_pin_to_connect_def)

text \<open>
  Claim C4, as stated, fails: the pin list \<open>["A", "a"]\<close> repeats an alias, the class
  statement accepts it and the first instance is built; the second pin has replaced the first
  under the key \<open>A\<close>.
\<close>

theorem duplicate_alias_counterexample:
  "names (pin_of ascii_upper (body_PINS twice_a ! 0)) = names (pin_of ascii_upper (body_PINS twice_a ! 1)) \<and>
   fst (Part_init (fst (class_def twice_a empty_state)) None None None True
          (snd (class_def twice_a empty_state))) = Inr 0 \<and>
   pins (parts (snd (Part_init (fst (class_def twice_a empty_state)) None None None True
          (snd (class_def twice_a empty_state)))) ! 0) = [(''A'', 1)]"
  by code_simp

text \<open>
  Claim C4, amended. Aliases are never compared: for every pin list whose entries have at
  least one name and declare no well, with or without repeated aliases, the class statement
  and the instantiation both succeed.
\<close>

theorem aliases_not_checked:
  assumes "\<forall>x \<in> set (body_PINS k).
             names (pin_of (str_upper s) x) \<noteq> [] \<and> well_name (pin_of (str_upper s) x) = None"
  shows "fst (Part_init (fst (class_def k s)) v rd pk po (snd (class_def k s))) = Inr (length (parts s))"
proof -
  define s1 where "s1 = snd (class_def k s)"
  have c: "PINS (classes s1 ! length (classes s)) = map (entry (str_upper s)) (body_PINS k)"
    "length (parts s1) = length (parts s)" "str_upper s1 = str_upper s"
    by (simp_all add: s1_def class_def_eq)
  have "\<forall>t \<in> set (map (template (str_upper s)) (map (entry (str_upper s)) (body_PINS k))).
          names t \<noteq> [] \<and> well_name t = None"
    using assms by (simp add: pin_of_def)
  from generate_loop_ok [OF this]
  have "fst (generate_loop (length (parts s1)) 0
               (map (template (str_upper s)) (map (entry (str_upper s)) (body_PINS k)))
               (before_pins (length (classes s)) v rd pk po s1)) = Inr ()" .
  then have "fst (Part_init (length (classes s)) v rd pk po s1) = Inr (length (parts s1))"
    by (auto simp: Part_init_unfold c split: prod.splits sum.splits)
  then show ?thesis
    by (simp add: s1_def c class_def_eq)
qed

theorem aliases_not_checked_witness:
  "fst (Part_init (fst (class_def twice_a empty_state)) None None None True
          (snd (class_def twice_a empty_state))) = Inr (length (parts empty_state))"
  using aliases_not_checked [of twice_a empty_state None None None True]
  by (simp add: twice_a_def pin_of_def entry_def template_def empty_state_def init_state_def)

text \<open>
  Claim C7, as stated, fails: a template given the empty sequence of numbers yields a bound
  pin whose numbers are empty.
\<close>

theorem empty_numbers_counterexample:
  "fst (Part_init 0 None None None True (snd (class_def no_numbers empty_state))) = Inr 0 \<and>
   numbers (ppins (snd (Part_init 0 None None None True (snd (class_def no_numbers empty_state)))) ! 0)
     = Some []"
  by code_simp

text \<open>
  Claim C7, amended. A successful instantiation creates one bound pin per entry of the pin
  list, in order, each owned by the new part. Its numbers are always present: the template's
  numbers when it has some (so non-empty exactly when those are), and the single string of
  the entry's zero-based position when it has none.
\<close>

theorem resolved_numbers:
  assumes "Part_init c v rd pk po s = (Inr r, s')"
  shows "length (ppins s') = length (ppins s) + length (PINS (classes s ! c)) \<and>
         (\<forall>k < length (PINS (classes s ! c)).
            part (ppins s' ! (length (ppins s) + k)) = r \<and>
            numbers (ppins s' ! (length (ppins s) + k)) =
              (case numbers (template (str_upper s) (PINS (classes s ! c) ! k)) of
                 None \<Rightarrow> Some [str k]
               | Some ns \<Rightarrow> Some ns))"
proof -
  define ts where "ts = map (template (str_upper s)) (PINS (classes s ! c))"
  define s0 where "s0 = before_pins c v rd pk po s"
  obtain r1 s1 where g: "generate_loop (length (parts s)) 0 ts s0 = (r1, s1)"
    by (cases "generate_loop (length (parts s)) 0 ts s0")
  have r1: "r1 = Inr ()" and r: "r = length (parts s)" and pp: "ppins s' = ppins s1"
    using assms g by (cases r1; simp add: Part_init_unfold ts_def s0_def; fastforce)+
  have p0: "ppins s0 = ppins s" by (simp add: s0_def before_pins_def)
  from generate_loop_pins [OF g [unfolded r1]] have
    len: "length (ppins s1) = length (ppins s0) + length ts"
    and new: "\<forall>k < length ts. \<exists>w. ppins s1 ! (length (ppins s0) + k) = bound_pin (length (parts s)) (0 + k) (ts ! k) w"
    by blast+
  have "part (ppins s' ! (length (ppins s) + k)) = r \<and>
        numbers (ppins s' ! (length (ppins s) + k)) =
          (case numbers (template (str_upper s) (PINS (classes s ! c) ! k)) of None \<Rightarrow> Some [str k] | Some ns \<Rightarrow> Some ns)"
    if k: "k < length (PINS (classes s ! c))" for k
  proof -
    from k have "k < length ts" by (simp add: ts_def)
    with new obtain w where "ppins s1 ! (length (ppins s0) + k) = bound_pin (length (parts s)) k (ts ! k) w"
      by auto
    with k show ?thesis
      by (simp add: pp p0 r bound_pin_def ts_def)
  qed
  with len show ?thesis by (simp add: pp p0 ts_def)
qed

theorem resolved_numbers_witness:
  "fst (Part_init 0 None None None True (snd (class_def resistor empty_state))) = Inr 0 \<and>
   numbers (ppins (snd (Part_init 0 None None None True (snd (class_def resistor empty_state)))) ! 1)
     = Some [''1'']"
proof -
  have "fst (Part_init 0 None None None True (snd (class_def resistor empty_state))) = Inr 0"
    by code_simp
  then have a: "Part_init 0 None None None True (snd (class_def resistor empty_state)) =
           (Inr 0, snd (Part_init 0 None None None True (snd (class_def resistor empty_state))))"
    by (simp add: prod_eq_iff)
  have b: "length (ppins (snd (class_def resistor empty_state))) = 0"
          "length (PINS (classes (snd (class_def resistor empty_state)) ! 0)) = 2"
          "numbers (template (str_upper (snd (class_def resistor empty_state)))
                     (PINS (classes (snd (class_def resistor empty_state)) ! 0) ! 1)) = None"
          "str 1 = ''1''"
    by code_simp+
  from resolved_numbers [OF a] b a show ?thesis
    by (metis (no_types, lifting) One_nat_def add_0 fst_conv lessI one_less_numeral_iff
        option.simps(4) semiring_norm(76))
qed

text \<open>
  Claim C9, as stated, fails: with a plugin registered on \<open>ParticularPin\<close>, instantiating a
  part creates two bound pins and the only hooks that run are the two registered on \<open>Part\<close>.
\<close>

theorem bound_pin_hook_counterexample:
  "ParticularPin_plugins watched_state = [''pin_watcher''] \<and>
   length (ppins (snd (Part_init 0 None None None True watched_state))) = 2 \<and>
   log (snd (Part_init 0 None None None True watched_state)) =
     [(''part_watcher'', OPart 0), (''late_watcher'', OPart 0)]"
  by code_simp

text \<open>
  Claim C9, amended. A successful instantiation runs the hooks registered on \<open>Part\<close> once
  each for the new part, in registration order, after everything else (its fields and pins
  are set by then). The only other hooks it runs are those registered on \<open>Pin\<close>, once per
  pin-list entry that was not yet a \<open>Pin\<close>, in list order; no hook runs for a bound pin
  (\<open>ParticularPin.__init__\<close> never reads its registry). An instantiation that fails runs no
  \<open>Part\<close> hook. \<open>plugin\<close> appends to the registry, so registry order is registration order.
\<close>

theorem part_hooks_order:
  "(\<forall>r s'. Part_init c v rd pk po s = (Inr r, s') \<longrightarrow>
      log s' = log s @ concat (map (template_hooks (str_upper s) (Pin_plugins s)) (PINS (classes s ! c)))
                     @ map (\<lambda>g. (g, OPart r)) (Part_plugins s)) \<and>
   (\<forall>e s'. Part_init c v rd pk po s = (Inl e, s') \<longrightarrow>
      log s' = log s @ concat (map (template_hooks (str_upper s) (Pin_plugins s)) (PINS (classes s ! c)))) \<and>
   Part_plugins (plugin pl [PartC] s) = Part_plugins s @ [pl]"
proof -
  define ts where "ts = map (template (str_upper s)) (PINS (classes s ! c))"
  define s0 where "s0 = before_pins c v rd pk po s"
  obtain r1 s1 where g: "generate_loop (length (parts s)) 0 ts s0 = (r1, s1)"
    by (cases "generate_loop (length (parts s)) 0 ts s0")
  from generate_loop_frame [OF g] have l1: "log s1 = log s0" and reg: "Part_plugins s1 = Part_plugins s0"
    by (simp_all add: same_registries_def)
  have l0: "log s0 = log s @ concat (map (template_hooks (str_upper s) (Pin_plugins s)) (PINS (classes s ! c)))"
    and reg0: "Part_plugins s0 = Part_plugins s"
    by (simp_all add: s0_def before_pins_def)
  have init: "Part_init c v rd pk po s =
      (case r1 of Inl e \<Rightarrow> (Inl e, s1)
       | Inr u \<Rightarrow> (Inr (length (parts s)),
            s1\<lparr>log := log s1 @ map (\<lambda>g. (g, OPart (length (parts s)))) (Part_plugins s1)\<rparr>))"
    using g by (simp add: Part_init_unfold ts_def s0_def)
  have a: "log s' = log s @ concat (map (template_hooks (str_upper s) (Pin_plugins s)) (PINS (classes s ! c)))
                     @ map (\<lambda>g. (g, OPart r)) (Part_plugins s)"
    if "Part_init c v rd pk po s = (Inr r, s')" for r s'
    using that init l1 l0 reg reg0 by (cases r1) auto
  have b: "log s' = log s @ concat (map (template_hooks (str_upper s) (Pin_plugins s)) (PINS (classes s ! c)))"
    if "Part_init c v rd pk po s = (Inl e, s')" for e s'
    using that init l1 l0 by (cases r1) auto
  have c: "Part_plugins (plugin pl [PartC] s) = Part_plugins s @ [pl]"
    by (simp add: plugin_def register_def)
  from a b c show ?thesis by blast
qed

theorem part_hooks_order_witness:
  "fst (Part_init 0 None None None True watched_state) = Inr 0 \<and>
   log (snd (Part_init 0 None None None True watched_state)) =
     log watched_state
       @ concat (map (template_hooks (str_upper watched_state) (Pin_plugins watched_state))
                   (PINS (classes watched_state ! 0)))
       @ map (\<lambda>g. (g, OPart 0)) (Part_plugins watched_state)"
proof -
  have "fst (Part_init 0 None None None True watched_state) = Inr 0"
    by code_simp
  then have a: "Part_init 0 None None None True watched_state =
           (Inr 0, snd (Part_init 0 None None None True watched_state))"
    by (simp add: prod_eq_iff)
  from part_hooks_order [of 0 None None None True watched_state] a show ?thesis
    by (metis fst_conv)
qed

subsection \<open>Group connects\<close>

lemma od_set_fresh: "k \<notin> fst ` set kvs \<Longrightarrow> od_set kvs k v = kvs @ [(k, v)]"
  by (induction kvs) auto

lemma connect_one_success:
  assumes "connect_one n x d t s = (Inr (), s')"
  shows "\<exists>p. x = APin p \<and> p_net (ppins s ! p) = None \<and>
             s' = s\<lparr>nets := (nets s)[n := (nets s ! n)\<lparr>connections := od_set (connections (nets s ! n)) p d\<rparr>],
                    ppins := (ppins s)[p := (ppins s ! p)\<lparr>p_net := Some n\<rparr>]\<rparr>"
proof (cases x)
  case (APin p)
  show ?thesis
  proof (cases "p_net (ppins s ! p)")
    case None
    with assms APin show ?thesis by (simp add: connect_pin_fresh)
  next
    case (Some m)
    with assms APin show ?thesis by (simp add: connect_pin_taken)
  qed
qed (use assms in \<open>simp_all add: Part_get_pin_to_connect_def\<close>)

lemma connect_loop_success:
  assumes "connect_loop n xs d t s = (Inr (), s')"
    and "n < length (nets s)"
    and "members_have_net n s"
    and "\<forall>p. APin p \<in> set xs \<longrightarrow> p < length (ppins s)"
  shows "\<exists>ps. xs = map APin ps \<and> distinct ps \<and> (\<forall>p \<in> set ps. p_net (ppins s ! p) = None) \<and>
              connections (nets s' ! n) = connections (nets s ! n) @ map (\<lambda>p. (p, d)) ps \<and>
              (\<forall>p \<in> set ps. p_net (ppins s' ! p) = Some n) \<and>
              (\<forall>q. q \<notin> set ps \<longrightarrow> ppins s' ! q = ppins s ! q) \<and>
              length (nets s') = length (nets s) \<and> length (ppins s') = length (ppins s)"
  using assms
proof (induction xs arbitrary: s)
  case Nil
  then show ?case by simp
next
  case (Cons x xs)
  obtain r1 s1 where one: "connect_one n x d t s = (r1, s1)"
    by (cases "connect_one n x d t s")
  have r1: "r1 = Inr ()" and loop: "connect_loop n xs d t s1 = (Inr (), s')"
    using Cons.prems(1) one by (cases r1; simp)+
  from connect_one_success [OF one [unfolded r1]] obtain p where
    x: "x = APin p" and free: "p_net (ppins s ! p) = None"
    and s1: "s1 = s\<lparr>nets := (nets s)[n := (nets s ! n)\<lparr>connections := od_set (connections (nets s ! n)) p d\<rparr>],
                    ppins := (ppins s)[p := (ppins s ! p)\<lparr>p_net := Some n\<rparr>]\<rparr>"
    by blast
  have plen: "p < length (ppins s)" using Cons.prems(4) x by simp
  have notin: "p \<notin> fst ` set (connections (nets s ! n))"
    using Cons.prems(3) free by (auto simp: members_have_net_def)
  have c1: "connections (nets s1 ! n) = connections (nets s ! n) @ [(p, d)]"
    using Cons.prems(2) by (simp add: s1 od_set_fresh [OF notin])
  have pp1: "ppins s1 = (ppins s)[p := (ppins s ! p)\<lparr>p_net := Some n\<rparr>]"
    by (simp add: s1)
  have set1: "p_net (ppins s1 ! p) = Some n"
    using plen by (simp add: pp1)
  have other1: "ppins s1 ! q = ppins s ! q" if "q \<noteq> p" for q
    using that by (simp add: pp1)
  have len1: "length (nets s1) = length (nets s)" "length (ppins s1) = length (ppins s)"
    by (simp_all add: s1)
  have inv1: "members_have_net n s1"
    unfolding members_have_net_def
  proof
    fix q assume "q \<in> fst ` set (connections (nets s1 ! n))"
    then have "q = p \<or> q \<in> fst ` set (connections (nets s ! n))"
      by (auto simp: c1)
    then show "p_net (ppins s1 ! q) \<noteq> None"
    proof
      assume "q = p" with set1 show ?thesis by simp
    next
      assume q: "q \<in> fst ` set (connections (nets s ! n))"
      with notin have "q \<noteq> p" by auto
      with q Cons.prems(3) show ?thesis by (auto simp: other1 members_have_net_def)
    qed
  qed
  have valid1: "\<forall>p. APin p \<in> set xs \<longrightarrow> p < length (ppins s1)"
    using Cons.prems(4) len1 by simp
  from Cons.IH [OF loop _ inv1 valid1] Cons.prems(2) len1 obtain ps where
    ps: "xs = map APin ps" "distinct ps" "\<forall>p \<in> set ps. p_net (ppins s1 ! p) = None"
        "connections (nets s' ! n) = connections (nets s1 ! n) @ map (\<lambda>p. (p, d)) ps"
        "\<forall>p \<in> set ps. p_net (ppins s' ! p) = Some n"
        "\<forall>q. q \<notin> set ps \<longrightarrow> ppins s' ! q = ppins s1 ! q"
        "length (nets s') = length (nets s1)" "length (ppins s') = length (ppins s1)"
    by auto
  have pnot: "p \<notin> set ps" using ps(3) set1 by auto
  have a: "x # xs = map APin (p # ps)" using x ps(1) by simp
  have b: "distinct (p # ps)" using pnot ps(2) by simp
  have c: "\<forall>q \<in> set (p # ps). p_net (ppins s ! q) = None"
  proof
    fix q assume "q \<in> set (p # ps)"
    then consider "q = p" | "q \<in> set ps" by auto
    then show "p_net (ppins s ! q) = None"
    proof cases
      case 1
      with free show ?thesis by simp
    next
      case 2
      with pnot have "q \<noteq> p" by auto
      then have "ppins s1 ! q = ppins s ! q" by (rule other1)
      with ps(3) 2 show ?thesis by auto
    qed
  qed
  have e: "connections (nets s' ! n) = connections (nets s ! n) @ map (\<lambda>p. (p, d)) (p # ps)"
    using ps(4) c1 by simp
  have f: "\<forall>q \<in> set (p # ps). p_net (ppins s' ! q) = Some n"
  proof
    fix q assume "q \<in> set (p # ps)"
    then consider "q = p" | "q \<in> set ps" by auto
    then show "p_net (ppins s' ! q) = Some n"
    proof cases
      case 1
      with ps(6) pnot set1 show ?thesis by simp
    next
      case 2
      with ps(5) show ?thesis by simp
    qed
  qed
  have g: "\<forall>q. q \<notin> set (p # ps) \<longrightarrow> ppins s' ! q = ppins s ! q"
    using ps(6) other1 by auto
  have h: "length (nets s') = length (nets s)" "length (ppins s') = length (ppins s)"
    using ps(7,8) len1 by simp_all
  show ?case
    by (rule exI [of _ "p # ps"]) (intro conjI a b c e f g h)
qed

lemma connect_loop_keeps_members:
  assumes "connect_loop n xs d t s = (Inr (), s')"
    and "n < length (nets s)"
    and "members_have_net n s"
    and "\<forall>p. APin p \<in> set xs \<longrightarrow> p < length (ppins s)"
  shows "members_have_net n s'"
proof -
  from connect_loop_success [OF assms] obtain ps where
    ps: "connections (nets s' ! n) = connections (nets s ! n) @ map (\<lambda>p. (p, d)) ps"
        "\<forall>p \<in> set ps. p_net (ppins s' ! p) = Some n"
        "\<forall>q. q \<notin> set ps \<longrightarrow> ppins s' ! q = ppins s ! q"
    by blast
  show ?thesis
    unfolding members_have_net_def
  proof
    fix q assume "q \<in> fst ` set (connections (nets s' ! n))"
    then have q: "q \<in> fst ` set (connections (nets s ! n)) \<or> q \<in> set ps"
      by (auto simp: ps(1))
    show "p_net (ppins s' ! q) \<noteq> None"
    proof (cases "q \<in> set ps")
      case True
      with ps(2) show ?thesis by simp
    next
      case False
      with q have "q \<in> fst ` set (connections (nets s ! n))" by simp
      with assms(3) have "p_net (ppins s ! q) \<noteq> None"
        by (auto simp: members_have_net_def)
      with False ps(3) show ?thesis by simp
    qed
  qed
qed

lemma connect_loop_fresh:
  "distinct ps \<Longrightarrow> \<forall>p \<in> set ps. p < length (ppins s) \<and> p_net (ppins s ! p) = None \<Longrightarrow>
   fst (connect_loop n (map APin ps) d t s) = Inr ()"
proof (induction ps arbitrary: s)
  case Nil
  show ?case by simp
next
  case (Cons p ps)
  define s1 where "s1 = s\<lparr>nets := (nets s)[n := (nets s ! n)\<lparr>connections := od_set (connections (nets s ! n)) p d\<rparr>],
                    ppins := (ppins s)[p := (ppins s ! p)\<lparr>p_net := Some n\<rparr>]\<rparr>"
  from Cons.prems have free: "p_net (ppins s ! p) = None" by simp
  have one: "connect_one n (APin p) d t s = (Inr (), s1)"
    by (simp add: connect_pin_fresh [OF free] s1_def)
  have "\<forall>q \<in> set ps. q < length (ppins s1) \<and> p_net (ppins s1 ! q) = None"
  proof
    fix q assume q: "q \<in> set ps"
    with Cons.prems(1) have "q \<noteq> p" by auto
    with q Cons.prems(2) show "q < length (ppins s1) \<and> p_net (ppins s1 ! q) = None"
      by (simp add: s1_def)
  qed
  with Cons.IH [of s1] Cons.prems(1) have "fst (connect_loop n (map APin ps) d t s1) = Inr ()"
    by simp
  with one show ?case by simp
qed

lemma Net_lshift_Inr:
  "Net_lshift n ts s = (Inr r, s') \<Longrightarrow> r = n \<and> Net_connect n ts Dir_IN PRIMARY s = (Inr (), s')"
  by (auto simp: Net_lshift_def split: prod.splits sum.splits)

lemma Net_rshift_Inr:
  "Net_rshift n ts s = (Inr r, s') \<Longrightarrow> r = n \<and> Net_connect n ts Dir_OUT PRIMARY s = (Inr (), s')"
  by (auto simp: Net_rshift_def split: prod.splits sum.splits)

lemma connect_loop_chain:
  assumes n: "n < length (nets s)"
    and inv: "members_have_net n s"
    and d: "distinct (ps @ qs)"
    and fresh: "\<forall>p \<in> set (ps @ qs). p < length (ppins s) \<and> p_net (ppins s ! p) = None"
  shows "\<exists>s1 s2. connect_loop n (map APin ps) d1 t1 s = (Inr (), s1) \<and>
                 connect_loop n (map APin qs) d2 t2 s1 = (Inr (), s2) \<and>
                 connections (nets s2 ! n) =
                   connections (nets s ! n) @ map (\<lambda>p. (p, d1)) ps @ map (\<lambda>p. (p, d2)) qs \<and>
                 (\<forall>p \<in> set (ps @ qs). p_net (ppins s2 ! p) = Some n)"
proof -
  define s1 where "s1 = snd (connect_loop n (map APin ps) d1 t1 s)"
  define s2 where "s2 = snd (connect_loop n (map APin qs) d2 t2 s1)"
  have dp: "distinct ps" and dq: "distinct qs" and disj: "set ps \<inter> set qs = {}"
    using d by simp_all
  have fp: "\<forall>p \<in> set ps. p < length (ppins s) \<and> p_net (ppins s ! p) = None"
    using fresh by simp
  have c1: "connect_loop n (map APin ps) d1 t1 s = (Inr (), s1)"
    using connect_loop_fresh [OF dp fp, of n d1 t1] by (simp add: s1_def prod_eq_iff)
  have vx: "\<forall>p. APin p \<in> set (map APin ps) \<longrightarrow> p < length (ppins s)"
    using fp by auto
  from connect_loop_success [OF c1 n inv vx] obtain ps' where
    ps': "map APin ps = map APin ps'"
         "connections (nets s1 ! n) = connections (nets s ! n) @ map (\<lambda>p. (p, d1)) ps'"
         "\<forall>p \<in> set ps'. p_net (ppins s1 ! p) = Some n"
         "\<forall>q. q \<notin> set ps' \<longrightarrow> ppins s1 ! q = ppins s ! q"
         "length (nets s1) = length (nets s)" "length (ppins s1) = length (ppins s)"
    by (elim exE conjE)
  have "inj APin" by (simp add: inj_def)
  with ps'(1) have eq: "ps' = ps" by (simp add: inj_map_eq_map)
  have inv1: "members_have_net n s1"
    by (rule connect_loop_keeps_members [OF c1 n inv vx])
  have n1: "n < length (nets s1)" using n ps'(5) by simp
  have fq: "\<forall>q \<in> set qs. q < length (ppins s1) \<and> p_net (ppins s1 ! q) = None"
  proof
    fix q assume q: "q \<in> set qs"
    with disj have "q \<notin> set ps" by auto
    with ps'(4) eq have "ppins s1 ! q = ppins s ! q" by simp
    with q fresh ps'(6) show "q < length (ppins s1) \<and> p_net (ppins s1 ! q) = None" by simp
  qed
  have c2: "connect_loop n (map APin qs) d2 t2 s1 = (Inr (), s2)"
    using connect_loop_fresh [OF dq fq, of n d2 t2] by (simp add: s2_def prod_eq_iff)
  have vy: "\<forall>p. APin p \<in> set (map APin qs) \<longrightarrow> p < length (ppins s1)"
    using fq by auto
  from connect_loop_success [OF c2 n1 inv1 vy] obtain qs' where
    qs': "map APin qs = map APin qs'"
         "connections (nets s2 ! n) = connections (nets s1 ! n) @ map (\<lambda>p. (p, d2)) qs'"
         "\<forall>p \<in> set qs'. p_net (ppins s2 ! p) = Some n"
         "\<forall>q. q \<notin> set qs' \<longrightarrow> ppins s2 ! q = ppins s1 ! q"
    by (elim exE conjE)
  from \<open>inj APin\<close> qs'(1) have eq2: "qs' = qs" by (simp add: inj_map_eq_map)
  have conn: "connections (nets s2 ! n) =
                connections (nets s ! n) @ map (\<lambda>p. (p, d1)) ps @ map (\<lambda>p. (p, d2)) qs"
    using ps'(2) qs'(2) eq eq2 by simp
  have set: "\<forall>p \<in> set (ps @ qs). p_net (ppins s2 ! p) = Some n"
  proof
    fix p assume "p \<in> set (ps @ qs)"
    then consider "p \<in> set qs" | "p \<in> set ps" "p \<notin> set qs" by auto
    then show "p_net (ppins s2 ! p) = Some n"
    proof cases
      case 1
      with qs'(3) eq2 show ?thesis by simp
    next
      case 2
      with qs'(4) eq2 have "ppins s2 ! p = ppins s1 ! p" by simp
      with 2 ps'(3) eq show ?thesis by simp
    qed
  qed
  from c1 c2 conn set show ?thesis by blast
qed

text \<open>
  Claim C6. Let net \<open>n\<close> be such that each of its members has its net set (as in every state
  a script reaches). A connect of a group into \<open>n\<close> that succeeds has connected pins only,
  and has appended them to the member list of \<open>n\<close> in the order of the group, all with the
  direction of the call; it succeeds on every group of distinct pins without a net. The
  operator \<open><<\<close> is that connect with direction \<open>IN\<close> and \<open>>>\<close> the one with direction \<open>OUT\<close>:
  each ends in the state of its connect, returns \<open>n\<close> itself when the connect succeeds and
  fails as the connect does. So a chain \<open>n << xs >> ys\<close> over distinct pins without a net
  succeeds and leaves on \<open>n\<close> the members it had, then \<open>xs\<close> tagged \<open>IN\<close>, then \<open>ys\<close> tagged
  \<open>OUT\<close>, each in group order.
\<close>

theorem group_connect_in_order:
  assumes "n < length (nets s)"
    and "members_have_net n s"
    and "\<forall>p. APin p \<in> set xs \<union> set ys \<longrightarrow> p < length (ppins s)"
  shows "(\<forall>s'. Net_connect n (Group xs) d t s = (Inr (), s') \<longrightarrow>
           (\<exists>ps. xs = map APin ps \<and>
                 connections (nets s' ! n) = connections (nets s ! n) @ map (\<lambda>p. (p, d)) ps \<and>
                 (\<forall>p \<in> set ps. p_net (ppins s' ! p) = Some n))) \<and>
         (\<forall>ps. xs = map APin ps \<and> distinct ps \<and> (\<forall>p \<in> set ps. p_net (ppins s ! p) = None) \<longrightarrow>
               fst (Net_connect n (Group xs) d t s) = Inr ()) \<and>
         (\<forall>r1 s1 r2 s2. Net_lshift n (Group xs) s = (Inr r1, s1) \<and>
                        Net_rshift r1 (Group ys) s1 = (Inr r2, s2) \<longrightarrow>
           r1 = n \<and> r2 = n \<and>
           (\<exists>ps qs. xs = map APin ps \<and> ys = map APin qs \<and>
                    connections (nets s2 ! n) =
                      connections (nets s ! n) @ map (\<lambda>p. (p, Dir_IN)) ps @ map (\<lambda>p. (p, Dir_OUT)) qs)) \<and>
         (\<forall>s'. Net_connect n (Group xs) Dir_IN PRIMARY s = (Inr (), s') \<longrightarrow>
               Net_lshift n (Group xs) s = (Inr n, s')) \<and>
         (\<forall>s'. Net_connect n (Group xs) Dir_OUT PRIMARY s = (Inr (), s') \<longrightarrow>
               Net_rshift n (Group xs) s = (Inr n, s')) \<and>
         (\<forall>e s'. Net_connect n (Group xs) Dir_IN PRIMARY s = (Inl e, s') \<longrightarrow>
               Net_lshift n (Group xs) s = (Inl e, s')) \<and>
         (\<forall>e s'. Net_connect n (Group xs) Dir_OUT PRIMARY s = (Inl e, s') \<longrightarrow>
               Net_rshift n (Group xs) s = (Inl e, s')) \<and>
         (\<forall>ps qs. xs = map APin ps \<and> ys = map APin qs \<and> distinct (ps @ qs) \<and>
                  (\<forall>p \<in> set (ps @ qs). p_net (ppins s ! p) = None) \<longrightarrow>
            (\<exists>s1 s2. Net_lshift n (Group xs) s = (Inr n, s1) \<and>
                     Net_rshift n (Group ys) s1 = (Inr n, s2) \<and>
                     connections (nets s2 ! n) =
                       connections (nets s ! n) @ map (\<lambda>p. (p, Dir_IN)) ps @ map (\<lambda>p. (p, Dir_OUT)) qs \<and>
                     (\<forall>p \<in> set (ps @ qs). p_net (ppins s2 ! p) = Some n)))"
proof (intro conjI allI impI)
  fix s' assume c: "Net_connect n (Group xs) d t s = (Inr (), s')"
  have v: "\<forall>p. APin p \<in> set xs \<longrightarrow> p < length (ppins s)" using assms(3) by simp
  from c have "connect_loop n xs d t s = (Inr (), s')" by (simp add: Net_connect_def)
  from connect_loop_success [OF this assms(1,2) v]
  show "\<exists>ps. xs = map APin ps \<and>
             connections (nets s' ! n) = connections (nets s ! n) @ map (\<lambda>p. (p, d)) ps \<and>
             (\<forall>p \<in> set ps. p_net (ppins s' ! p) = Some n)"
    by blast
next
  fix ps assume h: "xs = map APin ps \<and> distinct ps \<and> (\<forall>p \<in> set ps. p_net (ppins s ! p) = None)"
  with assms(3) have "\<forall>p \<in> set ps. p < length (ppins s) \<and> p_net (ppins s ! p) = None"
    by auto
  with h connect_loop_fresh [of ps s n d t] show "fst (Net_connect n (Group xs) d t s) = Inr ()"
    by (simp add: Net_connect_def)
next
  fix r1 s1 r2 s2
  assume ch: "Net_lshift n (Group xs) s = (Inr r1, s1) \<and> Net_rshift r1 (Group ys) s1 = (Inr r2, s2)"
  from ch Net_lshift_Inr [of n "Group xs" s r1 s1]
  have r1: "r1 = n" and c1: "connect_loop n xs Dir_IN PRIMARY s = (Inr (), s1)"
    by (simp_all add: Net_connect_def)
  from ch r1 Net_rshift_Inr [of n "Group ys" s1 r2 s2]
  have r2: "r2 = n" and c2: "connect_loop n ys Dir_OUT PRIMARY s1 = (Inr (), s2)"
    by (simp_all add: Net_connect_def)
  have vx: "\<forall>p. APin p \<in> set xs \<longrightarrow> p < length (ppins s)" using assms(3) by simp
  from connect_loop_success [OF c1 assms(1,2) vx] obtain ps where
    ps: "xs = map APin ps"
        "connections (nets s1 ! n) = connections (nets s ! n) @ map (\<lambda>p. (p, Dir_IN)) ps"
        "length (nets s1) = length (nets s)" "length (ppins s1) = length (ppins s)"
    by blast
  have inv1: "members_have_net n s1"
    by (rule connect_loop_keeps_members [OF c1 assms(1,2) vx])
  have n1: "n < length (nets s1)" using assms(1) ps(3) by simp
  have vy: "\<forall>p. APin p \<in> set ys \<longrightarrow> p < length (ppins s1)" using assms(3) ps(4) by simp
  from connect_loop_success [OF c2 n1 inv1 vy] obtain qs where
    qs: "ys = map APin qs"
        "connections (nets s2 ! n) = connections (nets s1 ! n) @ map (\<lambda>p. (p, Dir_OUT)) qs"
    by blast
  from ps(1,2) qs have "xs = map APin ps \<and> ys = map APin qs \<and>
      connections (nets s2 ! n) =
        connections (nets s ! n) @ map (\<lambda>p. (p, Dir_IN)) ps @ map (\<lambda>p. (p, Dir_OUT)) qs"
    by simp
  then show "\<exists>ps qs. xs = map APin ps \<and> ys = map APin qs \<and>
                    connections (nets s2 ! n) =
                      connections (nets s ! n) @ map (\<lambda>p. (p, Dir_IN)) ps @ map (\<lambda>p. (p, Dir_OUT)) qs"
    by blast
  show "r1 = n" by (rule r1)
  show "r2 = n" by (rule r2)
next
  fix s' assume "Net_connect n (Group xs) Dir_IN PRIMARY s = (Inr (), s')"
  then show "Net_lshift n (Group xs) s = (Inr n, s')" by (simp add: Net_lshift_def)
next
  fix s' assume "Net_connect n (Group xs) Dir_OUT PRIMARY s = (Inr (), s')"
  then show "Net_rshift n (Group xs) s = (Inr n, s')" by (simp add: Net_rshift_def)
next
  fix e s' assume "Net_connect n (Group xs) Dir_IN PRIMARY s = (Inl e, s')"
  then show "Net_lshift n (Group xs) s = (Inl e, s')" by (simp add: Net_lshift_def)
next
  fix e s' assume "Net_connect n (Group xs) Dir_OUT PRIMARY s = (Inl e, s')"
  then show "Net_rshift n (Group xs) s = (Inl e, s')" by (simp add: Net_rshift_def)
next
  fix ps qs
  assume h: "xs = map APin ps \<and> ys = map APin qs \<and> distinct (ps @ qs) \<and>
             (\<forall>p \<in> set (ps @ qs). p_net (ppins s ! p) = None)"
  then have xs: "xs = map APin ps" and ys: "ys = map APin qs" and d: "distinct (ps @ qs)"
    by simp_all
  from h assms(3) have fresh: "\<forall>p \<in> set (ps @ qs). p < length (ppins s) \<and> p_net (ppins s ! p) = None"
    by auto
  from connect_loop_chain [OF assms(1,2) d fresh, of Dir_IN PRIMARY Dir_OUT PRIMARY]
  obtain s1 s2 where
    c1: "connect_loop n (map APin ps) Dir_IN PRIMARY s = (Inr (), s1)"
    and c2: "connect_loop n (map APin qs) Dir_OUT PRIMARY s1 = (Inr (), s2)"
    and conn: "connections (nets s2 ! n) =
                 connections (nets s ! n) @ map (\<lambda>p. (p, Dir_IN)) ps @ map (\<lambda>p. (p, Dir_OUT)) qs"
    and set: "\<forall>p \<in> set (ps @ qs). p_net (ppins s2 ! p) = Some n"
    by (elim exE conjE)
  have l: "Net_lshift n (Group xs) s = (Inr n, s1)"
    using c1 by (simp add: Net_lshift_def Net_connect_def xs)
  have r: "Net_rshift n (Group ys) s1 = (Inr n, s2)"
    using c2 by (simp add: Net_rshift_def Net_connect_def ys)
  from l r conn set
  show "\<exists>s1 s2. Net_lshift n (Group xs) s = (Inr n, s1) \<and>
                Net_rshift n (Group ys) s1 = (Inr n, s2) \<and>
                connections (nets s2 ! n) =
                  connections (nets s ! n) @ map (\<lambda>p. (p, Dir_IN)) ps @ map (\<lambda>p. (p, Dir_OUT)) qs \<and>
                (\<forall>p \<in> set (ps @ qs). p_net (ppins s2 ! p) = Some n)"
    by blast
qed

theorem group_connect_in_order_witness:
  "fst (Net_lshift 0 (Group [APin 1]) demo_state) = Inr 0 \<and>
   fst (Net_rshift 0 (Group [APin 0]) (snd (Net_lshift 0 (Group [APin 1]) demo_state))) = Inr 0 \<and>
   connections (nets (snd (Net_rshift 0 (Group [APin 0])
                       (snd (Net_lshift 0 (Group [APin 1]) demo_state)))) ! 0) =
     [(1, Dir_IN), (0, Dir_OUT)]"
proof -
  have h1: "(0::nat) < length (nets demo_state)" by (simp add: demo_state_eq)
  have h2: "members_have_net 0 demo_state" by (simp add: members_have_net_def demo_state_eq)
  have h3: "\<forall>p. APin p \<in> set [APin 1] \<union> set [APin 0] \<longrightarrow> p < length (ppins demo_state)"
    by (auto simp: demo_state_eq)
  have h4: "[APin 1] = map APin [1] \<and> [APin 0] = map APin [0] \<and> distinct ([1] @ [0::nat]) \<and>
            (\<forall>p \<in> set ([1] @ [0]). p_net (ppins demo_state ! p) = None)"
    by (simp add: demo_state_eq)
  have chain: "\<forall>ps qs. [APin 1] = map APin ps \<and> [APin 0] = map APin qs \<and> distinct (ps @ qs) \<and>
                  (\<forall>p \<in> set (ps @ qs). p_net (ppins demo_state ! p) = None) \<longrightarrow>
            (\<exists>s1 s2. Net_lshift 0 (Group [APin 1]) demo_state = (Inr 0, s1) \<and>
                     Net_rshift 0 (Group [APin 0]) s1 = (Inr 0, s2) \<and>
                     connections (nets s2 ! 0) =
                       connections (nets demo_state ! 0) @ map (\<lambda>p. (p, Dir_IN)) ps
                         @ map (\<lambda>p. (p, Dir_OUT)) qs \<and>
                     (\<forall>p \<in> set (ps @ qs). p_net (ppins s2 ! p) = Some 0))"
    using group_connect_in_order [OF h1 h2 h3, of Dir_IN PRIMARY] by (elim conjE)
  from chain [rule_format, OF h4] obtain s1 s2 where
    a: "Net_lshift 0 (Group [APin 1]) demo_state = (Inr 0, s1)"
    and b: "Net_rshift 0 (Group [APin 0]) s1 = (Inr 0, s2)"
    and c: "connections (nets s2 ! 0) =
              connections (nets demo_state ! 0) @ map (\<lambda>p. (p, Dir_IN)) [1] @ map (\<lambda>p. (p, Dir_OUT)) [0]"
    by (elim exE conjE)
  from a b c show ?thesis by (simp add: demo_state_eq)
qed

subsection \<open>Well resolution\<close>

lemma map_fst_od_set:
  "map fst (od_set kvs k v) = (if k \<in> fst ` set kvs then map fst kvs else map fst kvs @ [k])"
  by (induction kvs) (force simp: image_iff)+

lemma keys_od_set: "fst ` set (od_set kvs k v) = insert k (fst ` set kvs)"
proof -
  have "fst ` set (od_set kvs k v) = set (map fst (od_set kvs k v))" by simp
  also have "\<dots> = insert k (fst ` set kvs)"
    unfolding map_fst_od_set by auto
  finally show ?thesis .
qed

lemma od_set_distinct: "distinct (map fst m) \<Longrightarrow> distinct (map fst (od_set m k v))"
  by (simp add: map_fst_od_set)

lemma in_od_set:
  "distinct (map fst m) \<Longrightarrow>
   (a, b) \<in> set (od_set m k v) \<longleftrightarrow> (a = k \<and> b = v) \<or> ((a, b) \<in> set m \<and> a \<noteq> k)"
proof (induction m)
  case Nil
  show ?case by auto
next
  case (Cons x m)
  obtain k' v' where x: "x = (k', v')" by (cases x)
  from Cons.prems x have d: "distinct (map fst m)" and nk: "\<forall>y. (k', y) \<notin> set m"
    by (auto simp: image_iff)
  note IH = Cons.IH [OF d]
  show ?case
  proof (cases "k' = k")
    case True
    then have "od_set (x # m) k v = (k, v) # m" by (simp add: x)
    with nk True show ?thesis by (auto simp: x)
  next
    case False
    then have "od_set (x # m) k v = (k', v') # od_set m k v" by (simp add: x)
    with IH False show ?thesis by (auto simp: x)
  qed
qed

lemma set_od_set_distinct:
  "distinct (map fst m) \<Longrightarrow> set (od_set m k v) = insert (k, v) {x \<in> set m. fst x \<noteq> k}"
proof (rule set_eqI)
  fix p :: "'a \<times> 'b"
  assume d: "distinct (map fst m)"
  obtain a b where p: "p = (a, b)" by (cases p)
  show "p \<in> set (od_set m k v) \<longleftrightarrow> p \<in> insert (k, v) {x \<in> set m. fst x \<noteq> k}"
    unfolding p in_od_set [OF d] by auto
qed

lemma pin_map_snoc:
  "pin_map b (ts @ [t]) m = od_set (pin_map b ts m) (hd (names t)) (b + length ts)"
  by (induction ts arbitrary: b m) simp_all

lemma pin_map_distinct: "distinct (map fst m) \<Longrightarrow> distinct (map fst (pin_map b ts m))"
  by (induction ts arbitrary: b m) (simp_all add: od_set_distinct)

lemma take1_eq:
  "xs \<noteq> [] \<Longrightarrow> ys \<noteq> [] \<Longrightarrow> take (Suc 0) xs = take (Suc 0) ys \<longleftrightarrow> hd xs = hd ys"
  by (cases xs; cases ys) simp_all

lemma take1_single: "xs \<noteq> [] \<Longrightarrow> take (Suc 0) xs = [k] \<longleftrightarrow> hd xs = k"
  by (cases xs) simp_all

lemma kept_last: "kept (ts @ [t]) (length ts)"
  by (simp add: kept_def)

lemma kept_snoc:
  "j < length ts \<Longrightarrow>
   kept (ts @ [t]) j \<longleftrightarrow> kept ts j \<and> take 1 (names (ts ! j)) \<noteq> take 1 (names t)"
  by (auto simp: kept_def nth_append)

lemma set_pin_map:
  "\<forall>t \<in> set ts. names t \<noteq> [] \<Longrightarrow>
   set (pin_map b ts []) = {(k, q). \<exists>j < length ts. q = b + j \<and> k = hd (names (ts ! j)) \<and> kept ts j}"
proof (induction ts rule: rev_induct)
  case Nil
  show ?case by simp
next
  case (snoc t ts)
  from snoc.prems have ne: "\<forall>t \<in> set ts. names t \<noteq> []" and net: "names t \<noteq> []" by simp_all
  note IH = snoc.IH [OF ne]
  have d: "distinct (map fst (pin_map b ts []))" by (rule pin_map_distinct) simp
  have same: "take (Suc 0) (names (ts ! j)) = take (Suc 0) (names t) \<longleftrightarrow>
              hd (names (ts ! j)) = hd (names t)"
    if "j < length ts" for j
    using that ne net by (simp add: take1_eq)
  show ?case
  proof (rule set_eqI, clarify)
    fix k q
    have "(k, q) \<in> set (pin_map b (ts @ [t]) []) \<longleftrightarrow>
          (k = hd (names t) \<and> q = b + length ts) \<or> ((k, q) \<in> set (pin_map b ts []) \<and> k \<noteq> hd (names t))"
      by (auto simp: pin_map_snoc set_od_set_distinct [OF d])
    also have "\<dots> \<longleftrightarrow>
          (k = hd (names t) \<and> q = b + length ts) \<or>
          (\<exists>j < length ts. q = b + j \<and> k = hd (names (ts ! j)) \<and> kept ts j \<and> k \<noteq> hd (names t))"
      by (auto simp: IH)
    also have "\<dots> \<longleftrightarrow>
          (\<exists>j < length (ts @ [t]). q = b + j \<and> k = hd (names ((ts @ [t]) ! j)) \<and> kept (ts @ [t]) j)"
      (is "?L \<longleftrightarrow> ?R")
    proof
      assume ?L
      then show ?R
      proof
        assume "k = hd (names t) \<and> q = b + length ts"
        then have "length ts < length (ts @ [t]) \<and> q = b + length ts \<and>
                   k = hd (names ((ts @ [t]) ! length ts)) \<and> kept (ts @ [t]) (length ts)"
          by (simp add: kept_last)
        then show ?R by blast
      next
        assume "\<exists>j < length ts. q = b + j \<and> k = hd (names (ts ! j)) \<and> kept ts j \<and> k \<noteq> hd (names t)"
        then obtain j where j: "j < length ts" "q = b + j" "k = hd (names (ts ! j))" "kept ts j"
          "k \<noteq> hd (names t)" by blast
        then have "j < length (ts @ [t]) \<and> q = b + j \<and> k = hd (names ((ts @ [t]) ! j)) \<and>
                   kept (ts @ [t]) j"
          by (simp add: nth_append kept_snoc same)
        then show ?R by blast
      qed
    next
      assume ?R
      then obtain j where j: "j < length (ts @ [t])" "q = b + j" "k = hd (names ((ts @ [t]) ! j))"
        "kept (ts @ [t]) j" by blast
      show ?L
      proof (cases "j = length ts")
        case True
        with j show ?thesis by simp
      next
        case False
        with j(1) have lt: "j < length ts" by simp
        with j have "q = b + j \<and> k = hd (names (ts ! j)) \<and> kept ts j \<and> k \<noteq> hd (names t)"
          by (simp add: nth_append kept_snoc same)
        with lt show ?thesis by blast
      qed
    qed
    finally show "(k, q) \<in> set (pin_map b (ts @ [t]) []) \<longleftrightarrow>
        (k, q) \<in> {(k, q). \<exists>j < length (ts @ [t]). q = b + j \<and> k = hd (names ((ts @ [t]) ! j)) \<and>
                          kept (ts @ [t]) j}"
      by simp
  qed
qed

lemma generate_loop_pin_map:
  assumes "generate_loop self i ts s = (Inr (), s')" and "self < length (parts s)"
  shows "pins (parts s' ! self) = pin_map (length (ppins s)) ts (pins (parts s ! self)) \<and>
         (\<forall>t \<in> set ts. names t \<noteq> [])"
  using assms
proof (induction ts arbitrary: i s)
  case Nil
  then show ?case by simp
next
  case (Cons t ts)
  note prem = Cons.prems
  note IH = Cons.IH
  obtain r1 s1 where init:
    "ParticularPin_init self t (if numbers t = None then Some (str i) else None) s = (r1, s1)"
    by (cases "ParticularPin_init self t (if numbers t = None then Some (str i) else None) s")
  from ParticularPin_init_cases [OF init] show ?case
  proof (elim disjE exE conjE)
    fix e assume "r1 = Inl e" "s1 = s"
    with init prem show ?thesis by simp
  next
    fix w assume r1: "r1 = Inr (length (ppins s))"
      and s1: "s1 = s\<lparr>ppins := ppins s @ [bound_pin self i t w]\<rparr>"
    have nm1: "names (ppins s1 ! length (ppins s)) = names t"
      by (simp add: s1 bound_pin_def)
    show ?thesis
    proof (cases "names t")
      case Nil
      with init r1 nm1 prem show ?thesis by simp
    next
      case (Cons nm rest)
      define s2 where "s2 = s1\<lparr>parts := (parts s1)[self := (parts s1 ! self)
          \<lparr>pins := od_set (pins (parts s1 ! self)) nm (length (ppins s)),
           attrs := fold (\<lambda>name d. od_set d name (length (ppins s))) (names t) (attrs (parts s1 ! self))\<rparr>]\<rparr>"
      have loop: "generate_loop self (Suc i) ts s2 = (Inr (), s')"
        using init r1 nm1 Cons prem by (simp add: s2_def Let_def)
      have p2: "length (ppins s2) = Suc (length (ppins s))" "self < length (parts s2)"
        using prem(2) by (simp_all add: s2_def s1)
      have m2: "pins (parts s2 ! self) = od_set (pins (parts s ! self)) (hd (names t)) (length (ppins s))"
        using prem(2) Cons by (simp add: s2_def s1)
      from IH [OF loop p2(2)] show ?thesis
        using Cons by (simp add: p2(1) m2)
    qed
  qed
qed

lemma PinList_getitem_Inr:
  assumes "PinList_getitem pl (Alias w) s = Inr q"
  shows "\<exists>k. (k, q) \<in> set pl \<and> (k = str_upper s w \<or> str_upper s (str_upper s w) \<in> set (names (ppins s ! q)))"
proof (cases "map_of pl (str_upper s w)")
  case (Some q')
  with assms have "q' = q" by (simp add: PinList_getitem_def)
  with Some have "(str_upper s w, q) \<in> set pl" by (simp add: map_of_SomeD)
  then show ?thesis by blast
next
  case None
  with assms have
    "find (\<lambda>pin. str_upper s (str_upper s w) \<in> set (names (ppins s ! pin))) (map snd pl) = Some q"
    by (simp add: PinList_getitem_def split: option.splits)
  then have "q \<in> set (map snd pl) \<and> str_upper s (str_upper s w) \<in> set (names (ppins s ! q))"
    by (auto simp: find_Some_iff)
  then show ?thesis by auto
qed

lemma PinList_getitem_Inl:
  assumes "PinList_getitem pl (Alias w) s = Inl e"
  shows "e = UnknownPin"
  using assms by (simp add: PinList_getitem_def Let_def split: option.splits)

lemma PinList_getitem_hit:
  assumes "(k, q) \<in> set pl"
    and "k = str_upper s w \<or> str_upper s (str_upper s w) \<in> set (names (ppins s ! q))"
  shows "\<exists>q'. PinList_getitem pl (Alias w) s = Inr q'"
proof (cases "map_of pl (str_upper s w)")
  case (Some q')
  then show ?thesis by (simp add: PinList_getitem_def)
next
  case None
  then have "str_upper s w \<notin> fst ` set pl" by (simp add: map_of_eq_None_iff)
  with assms have "str_upper s (str_upper s w) \<in> set (names (ppins s ! q))" by force
  moreover from assms(1) have "q \<in> set (map snd pl)" by force
  ultimately have
    "find (\<lambda>pin. str_upper s (str_upper s w) \<in> set (names (ppins s ! pin))) (map snd pl) \<noteq> None"
    unfolding find_None_iff by blast
  with None show ?thesis by (auto simp: PinList_getitem_def)
qed

lemma generate_loop_append:
  "generate_loop self i (xs @ ys) s =
     (case generate_loop self i xs s of
        (Inl e, s') \<Rightarrow> (Inl e, s')
      | (Inr u, s') \<Rightarrow> generate_loop self (i + length xs) ys s')"
proof (induction xs arbitrary: i s)
  case Nil
  show ?case by simp
next
  case (Cons x xs)
  show ?case
    by (simp add: Cons.IH Let_def split: prod.splits sum.splits list.splits)
qed

lemma ParticularPin_init_well:
  assumes "well_name t = Some w"
  shows "ParticularPin_init self t (if numbers t = None then Some (str i) else None) s =
     (case PinList_getitem (pins (parts s ! self)) (Alias w) s of
        Inl e \<Rightarrow> (Inl (if e = UnknownPin then UnknownWellPin else e), s)
      | Inr q \<Rightarrow>
          if type (ppins s ! q) \<notin> {POWER_INPUT, POWER_OUTPUT} then (Inl InvalidWellPinType, s)
          else (Inr (length (ppins s)), s\<lparr>ppins := ppins s @ [bound_pin self i t (Some q)]\<rparr>))"
  using assms
  by (cases "numbers t")
     (simp_all add: ParticularPin_init_def bound_pin_def Let_def split: sum.splits)

lemma well_lookup_context:
  assumes loop: "generate_loop (length (parts s)) 0 earlier (before_pins c v rd pk po s) = (Inr (), s1)"
  shows "length (ppins s1) = length (ppins s) + length earlier"
    and "\<forall>j < length earlier.
           names (ppins s1 ! (length (ppins s) + j)) = names (earlier ! j) \<and>
           type (ppins s1 ! (length (ppins s) + j)) = type (earlier ! j) \<and>
           part (ppins s1 ! (length (ppins s) + j)) = length (parts s)"
    and "set (pins (parts s1 ! length (parts s))) =
           {(k, q). \<exists>j < length earlier. q = length (ppins s) + j \<and> k = hd (names (earlier ! j)) \<and>
                                        kept earlier j}"
    and "\<forall>t \<in> set earlier. names t \<noteq> []"
    and "str_upper s1 = str_upper s"
proof -
  define s0 where "s0 = before_pins c v rd pk po s"
  have p0: "ppins s0 = ppins s" "length (parts s) < length (parts s0)"
    "pins (parts s0 ! length (parts s)) = []" "str_upper s0 = str_upper s"
    by (simp_all add: s0_def before_pins_def part_obj_def)
  from generate_loop_pins [OF loop [folded s0_def]] p0(1) have
    len: "length (ppins s1) = length (ppins s) + length earlier"
    and new: "\<forall>k < length earlier. \<exists>w. ppins s1 ! (length (ppins s) + k) =
                 bound_pin (length (parts s)) (0 + k) (earlier ! k) w"
    by simp_all
  show "length (ppins s1) = length (ppins s) + length earlier" by (rule len)
  show "\<forall>j < length earlier.
           names (ppins s1 ! (length (ppins s) + j)) = names (earlier ! j) \<and>
           type (ppins s1 ! (length (ppins s) + j)) = type (earlier ! j) \<and>
           part (ppins s1 ! (length (ppins s) + j)) = length (parts s)"
  proof (intro allI impI)
    fix j assume "j < length earlier"
    with new obtain w where "ppins s1 ! (length (ppins s) + j) =
                 bound_pin (length (parts s)) (0 + j) (earlier ! j) w"
      by blast
    then show "names (ppins s1 ! (length (ppins s) + j)) = names (earlier ! j) \<and>
           type (ppins s1 ! (length (ppins s) + j)) = type (earlier ! j) \<and>
           part (ppins s1 ! (length (ppins s) + j)) = length (parts s)"
      by (simp add: bound_pin_def)
  qed
  from generate_loop_pin_map [OF loop [folded s0_def] p0(2)] p0(1,3)
  have m: "pins (parts s1 ! length (parts s)) = pin_map (length (ppins s)) earlier []"
    and ne: "\<forall>t \<in> set earlier. names t \<noteq> []"
    by simp_all
  show "\<forall>t \<in> set earlier. names t \<noteq> []" by (rule ne)
  show "set (pins (parts s1 ! length (parts s))) =
           {(k, q). \<exists>j < length earlier. q = length (ppins s) + j \<and> k = hd (names (earlier ! j)) \<and>
                                        kept earlier j}"
    unfolding m by (rule set_pin_map [OF ne])
  from generate_loop_frame [OF loop [folded s0_def]] p0(4)
  show "str_upper s1 = str_upper s" by (simp add: same_registries_def)
qed

lemma answers_bound:
  assumes "names e \<noteq> []"
  shows "answers up w e \<longleftrightarrow> hd (names e) = up w \<or> up (up w) \<in> set (names e)"
  using assms by (simp add: answers_def take1_single)

text \<open>
  Claim C8, amended. Let a pin list be \<open>earlier @ t # later\<close> where \<open>t\<close> declares the well
  \<open>w\<close>, and let the construction have built the pins of \<open>earlier\<close>, reaching \<open>s1\<close>. The well is
  looked up at that moment, in the part's pin map as built so far. The lookup resolves
  exactly when a pin of \<open>earlier\<close> that is still in the map answers to \<open>w\<close>; when it misses,
  the instantiation fails with \<open>UnknownWellPin\<close>. A lookup that resolves yields a bound pin
  of this part, built from such an entry of \<open>earlier\<close>. If that pin is neither a
  \<open>POWER_INPUT\<close> nor a \<open>POWER_OUTPUT\<close>, the instantiation fails with \<open>InvalidWellPinType\<close>.
  If it is one of the two, the pin built from \<open>t\<close> is accepted with its \<open>well\<close> set to that
  very pin: the construction goes on past \<open>t\<close> (when \<open>t\<close> has a name), it succeeds when the
  pins of \<open>later\<close> have names and declare no well, and every instantiation that succeeds
  returns with that \<open>well\<close> in place, both pins owned by the new part.
\<close>

theorem well_resolved_during_construction:
  assumes pinlist: "map (template (str_upper s)) (PINS (classes s ! c)) = earlier @ t # later"
    and built: "generate_loop (length (parts s)) 0 earlier (before_pins c v rd pk po s) = (Inr (), s1)"
    and decl: "well_name t = Some w"
  shows "((\<exists>q. PinList_getitem (pins (parts s1 ! length (parts s))) (Alias w) s1 = Inr q) \<longleftrightarrow>
            (\<exists>j < length earlier. kept earlier j \<and> answers (str_upper s) w (earlier ! j))) \<and>
         (\<forall>e. PinList_getitem (pins (parts s1 ! length (parts s))) (Alias w) s1 = Inl e \<longrightarrow>
            fst (Part_init c v rd pk po s) = Inl UnknownWellPin) \<and>
         (\<forall>q. PinList_getitem (pins (parts s1 ! length (parts s))) (Alias w) s1 = Inr q \<longrightarrow>
            (\<exists>j < length earlier. q = length (ppins s) + j \<and> kept earlier j \<and>
                 answers (str_upper s) w (earlier ! j) \<and>
                 type (ppins s1 ! q) = type (earlier ! j) \<and> part (ppins s1 ! q) = length (parts s)) \<and>
            (type (ppins s1 ! q) \<notin> {POWER_INPUT, POWER_OUTPUT} \<longrightarrow>
               fst (Part_init c v rd pk po s) = Inl InvalidWellPinType) \<and>
            (type (ppins s1 ! q) \<in> {POWER_INPUT, POWER_OUTPUT} \<longrightarrow>
               (\<forall>r s'. Part_init c v rd pk po s = (Inr r, s') \<longrightarrow>
                  well (ppins s' ! (length (ppins s) + length earlier)) = Some q \<and>
                  part (ppins s' ! (length (ppins s) + length earlier)) = r \<and>
                  part (ppins s' ! q) = r) \<and>
               (names t \<noteq> [] \<longrightarrow>
                  (\<exists>s2. generate_loop (length (parts s)) 0 (earlier @ [t]) (before_pins c v rd pk po s) =
                          (Inr (), s2) \<and>
                        well (ppins s2 ! (length (ppins s) + length earlier)) = Some q)) \<and>
               (names t \<noteq> [] \<and> (\<forall>u \<in> set later. names u \<noteq> [] \<and> well_name u = None) \<longrightarrow>
                  fst (Part_init c v rd pk po s) = Inr (length (parts s)))))"
proof -
  define self where "self = length (parts s)"
  define s0 where "s0 = before_pins c v rd pk po s"
  define i where "i = length earlier"
  define up where "up = str_upper s"
  define pl where "pl = pins (parts s1 ! self)"
  define num where "num = (if numbers t = None then Some (str i) else None)"
  note ctx = well_lookup_context [OF built]
  have len1: "length (ppins s1) = length (ppins s) + i"
    using ctx(1) by (simp add: i_def)
  have up1: "str_upper s1 = up" using ctx(5) by (simp add: up_def)
  have in_pl: "(k, q) \<in> set pl \<longleftrightarrow>
      (\<exists>j < length earlier. q = length (ppins s) + j \<and> k = hd (names (earlier ! j)) \<and> kept earlier j)"
    for k q
    unfolding pl_def self_def ctx(3) by simp
  have ans: "(hd (names (earlier ! j)) = up w \<or> up (up w) \<in> set (names (ppins s1 ! (length (ppins s) + j))))
             \<longleftrightarrow> answers up w (earlier ! j)"
    if j: "j < length earlier" for j
  proof -
    from j ctx(4) have "names (earlier ! j) \<noteq> []" by simp
    moreover from j ctx(2) have "names (ppins s1 ! (length (ppins s) + j)) = names (earlier ! j)"
      by simp
    ultimately show ?thesis by (simp add: answers_bound)
  qed
  define G where "G = generate_loop self i (t # later) s1"
  have G_step: "G =
      (case ParticularPin_init self t num s1 of
         (Inl e, s') \<Rightarrow> (Inl e, s')
       | (Inr pin, s1a) \<Rightarrow>
           (case names (ppins s1a ! pin) of
              [] \<Rightarrow> (Inl IndexError, s1a)
            | nm # _ \<Rightarrow>
                generate_loop self (Suc i) later
                  (s1a\<lparr>parts := (parts s1a)[self := (parts s1a ! self)
                     \<lparr>pins := od_set (pins (parts s1a ! self)) nm pin,
                      attrs := fold (\<lambda>name d. od_set d name pin) (names (ppins s1a ! pin))
                                 (attrs (parts s1a ! self))\<rparr>]\<rparr>)))"
    unfolding G_def num_def generate_loop.simps Let_def by (rule refl)
  define G1 where "G1 = generate_loop self i [t] s1"
  have G1_step: "G1 =
      (case ParticularPin_init self t num s1 of
         (Inl e, s') \<Rightarrow> (Inl e, s')
       | (Inr pin, s1a) \<Rightarrow>
           (case names (ppins s1a ! pin) of
              [] \<Rightarrow> (Inl IndexError, s1a)
            | nm # _ \<Rightarrow>
                (Inr (), s1a\<lparr>parts := (parts s1a)[self := (parts s1a ! self)
                     \<lparr>pins := od_set (pins (parts s1a ! self)) nm pin,
                      attrs := fold (\<lambda>name d. od_set d name pin) (names (ppins s1a ! pin))
                                 (attrs (parts s1a ! self))\<rparr>]\<rparr>)))"
    unfolding G1_def num_def generate_loop.simps Let_def by (rule refl)
  have full: "generate_loop self 0 (earlier @ t # later) s0 = G"
    using built by (simp add: generate_loop_append self_def s0_def i_def G_def del: generate_loop.simps)
  have pre: "generate_loop self 0 (earlier @ [t]) s0 = G1"
    using built by (simp add: generate_loop_append self_def s0_def i_def G1_def del: generate_loop.simps)
  have "Part_init c v rd pk po s =
      (case generate_loop self 0 (earlier @ t # later) s0 of
         (Inl e, s') \<Rightarrow> (Inl e, s')
       | (Inr u, s') \<Rightarrow> (Inr self, s'\<lparr>log := log s' @ map (\<lambda>g. (g, OPart self)) (Part_plugins s')\<rparr>))"
    by (simp only: Part_init_unfold pinlist self_def s0_def)
  then have init: "Part_init c v rd pk po s =
      (case G of
         (Inl e, s') \<Rightarrow> (Inl e, s')
       | (Inr u, s') \<Rightarrow> (Inr self, s'\<lparr>log := log s' @ map (\<lambda>g. (g, OPart self)) (Part_plugins s')\<rparr>))"
    by (simp only: full)
  have pin_init: "ParticularPin_init self t num s1 =
     (case PinList_getitem pl (Alias w) s1 of
        Inl e \<Rightarrow> (Inl (if e = UnknownPin then UnknownWellPin else e), s1)
      | Inr q \<Rightarrow>
          if type (ppins s1 ! q) \<notin> {POWER_INPUT, POWER_OUTPUT} then (Inl InvalidWellPinType, s1)
          else (Inr (length (ppins s1)), s1\<lparr>ppins := ppins s1 @ [bound_pin self i t (Some q)]\<rparr>))"
    unfolding num_def pl_def by (rule ParticularPin_init_well [OF decl])
  have miss: "fst (Part_init c v rd pk po s) = Inl UnknownWellPin"
    if "PinList_getitem pl (Alias w) s1 = Inl e" for e
  proof -
    from that have "e = UnknownPin" by (rule PinList_getitem_Inl)
    with that pin_init have "ParticularPin_init self t num s1 = (Inl UnknownWellPin, s1)"
      by simp
    then have "G = (Inl UnknownWellPin, s1)"
      by (simp add: G_step)
    then show ?thesis by (simp add: init)
  qed
  have found: "\<exists>j < length earlier. q = length (ppins s) + j \<and> kept earlier j \<and>
                 answers up w (earlier ! j) \<and>
                 type (ppins s1 ! q) = type (earlier ! j) \<and> part (ppins s1 ! q) = self"
    if lk: "PinList_getitem pl (Alias w) s1 = Inr q" for q
  proof -
    from PinList_getitem_Inr [OF lk] obtain k where
      kq: "(k, q) \<in> set pl" and alt: "k = up w \<or> up (up w) \<in> set (names (ppins s1 ! q))"
      unfolding up1 by blast
    from kq obtain j where j: "j < length earlier" "q = length (ppins s) + j"
      "k = hd (names (earlier ! j))" "kept earlier j"
      unfolding in_pl by blast
    from alt j(2,3) ans [OF j(1)] have a: "answers up w (earlier ! j)" by simp
    from j(1,2) ctx(2) have "type (ppins s1 ! q) = type (earlier ! j)" "part (ppins s1 ! q) = self"
      by (simp_all add: self_def)
    with j a show ?thesis by blast
  qed
  have hits: "\<exists>q. PinList_getitem pl (Alias w) s1 = Inr q"
    if j: "j < length earlier" and kj: "kept earlier j" and a: "answers up w (earlier ! j)" for j
  proof -
    have kq: "(hd (names (earlier ! j)), length (ppins s) + j) \<in> set pl"
      unfolding in_pl using j kj by blast
    from a ans [OF j] have "hd (names (earlier ! j)) = str_upper s1 w \<or>
        str_upper s1 (str_upper s1 w) \<in> set (names (ppins s1 ! (length (ppins s) + j)))"
      unfolding up1 by simp
    from PinList_getitem_hit [OF kq this] show ?thesis .
  qed
  have invalid: "fst (Part_init c v rd pk po s) = Inl InvalidWellPinType"
    if lk: "PinList_getitem pl (Alias w) s1 = Inr q"
      and np: "type (ppins s1 ! q) \<notin> {POWER_INPUT, POWER_OUTPUT}" for q
  proof -
    from lk np pin_init have "ParticularPin_init self t num s1 = (Inl InvalidWellPinType, s1)"
      by simp
    then have "G = (Inl InvalidWellPinType, s1)"
      by (simp add: G_step)
    then show ?thesis by (simp add: init)
  qed
  have power: "(\<forall>r s'. Part_init c v rd pk po s = (Inr r, s') \<longrightarrow>
                  well (ppins s' ! (length (ppins s) + length earlier)) = Some q \<and>
                  part (ppins s' ! (length (ppins s) + length earlier)) = r \<and>
                  part (ppins s' ! q) = r) \<and>
               (names t \<noteq> [] \<longrightarrow>
                  (\<exists>s2. generate_loop (length (parts s)) 0 (earlier @ [t]) (before_pins c v rd pk po s) =
                          (Inr (), s2) \<and>
                        well (ppins s2 ! (length (ppins s) + length earlier)) = Some q)) \<and>
               (names t \<noteq> [] \<and> (\<forall>u \<in> set later. names u \<noteq> [] \<and> well_name u = None) \<longrightarrow>
                  fst (Part_init c v rd pk po s) = Inr (length (parts s)))"
    if lk: "PinList_getitem pl (Alias w) s1 = Inr q"
      and pw: "type (ppins s1 ! q) \<in> {POWER_INPUT, POWER_OUTPUT}" for q
  proof -
    define s1a where "s1a = s1\<lparr>ppins := ppins s1 @ [bound_pin self i t (Some q)]\<rparr>"
    from lk pw pin_init have pi: "ParticularPin_init self t num s1 = (Inr (length (ppins s1)), s1a)"
      by (simp add: s1a_def)
    have nm1: "names (ppins s1a ! length (ppins s1)) = names t"
      by (simp add: s1a_def bound_pin_def)
    from found [OF lk] obtain j where j: "j < length earlier" "q = length (ppins s) + j"
      and pq: "part (ppins s1 ! q) = self"
      by blast
    have step: "G = generate_loop self (Suc i) later s2 \<and> G1 = (Inr (), s2) \<and>
                ppins s2 = ppins s1 @ [bound_pin self i t (Some q)]"
      if nm: "names t = nm # rest"
        and s2: "s2 = s1a\<lparr>parts := (parts s1a)[self := (parts s1a ! self)
          \<lparr>pins := od_set (pins (parts s1a ! self)) nm (length (ppins s1)),
           attrs := fold (\<lambda>name d. od_set d name (length (ppins s1))) (names t) (attrs (parts s1a ! self))\<rparr>]\<rparr>"
      for nm rest s2
    proof -
      have "G = generate_loop self (Suc i) later s2"
        using pi nm1 nm by (simp add: G_step s2)
      moreover have "G1 = (Inr (), s2)"
        using pi nm1 nm by (simp add: G1_step s2)
      moreover have "ppins s2 = ppins s1 @ [bound_pin self i t (Some q)]"
        by (simp add: s2 s1a_def)
      ultimately show ?thesis by simp
    qed
    have first: "well (ppins s' ! (length (ppins s) + length earlier)) = Some q \<and>
                  part (ppins s' ! (length (ppins s) + length earlier)) = r \<and>
                  part (ppins s' ! q) = r"
      if ok: "Part_init c v rd pk po s = (Inr r, s')" for r s'
    proof -
      obtain rr s2' where g: "G = (rr, s2')"
        by (cases G)
      have rr: "rr = Inr ()" using ok init g by (cases rr) simp_all
      then have "Part_init c v rd pk po s =
            (Inr self, s2'\<lparr>log := log s2' @ map (\<lambda>g. (g, OPart self)) (Part_plugins s2')\<rparr>)"
        using init g by simp
      with ok have r: "r = self"
        and s': "s' = s2'\<lparr>log := log s2' @ map (\<lambda>g. (g, OPart self)) (Part_plugins s2')\<rparr>"
        by auto
      have pp: "ppins s' = ppins s2'" by (simp add: s')
      obtain nm rest where nm: "names t = nm # rest"
      proof (cases "names t")
        case Nil
        with g rr pi nm1 show ?thesis by (simp add: G_step)
      next
        case (Cons a list)
        then show ?thesis by (rule that)
      qed
      define s2 where "s2 = s1a\<lparr>parts := (parts s1a)[self := (parts s1a ! self)
          \<lparr>pins := od_set (pins (parts s1a ! self)) nm (length (ppins s1)),
           attrs := fold (\<lambda>name d. od_set d name (length (ppins s1))) (names t) (attrs (parts s1a ! self))\<rparr>]\<rparr>"
      from step [OF nm s2_def] g rr have rest_loop: "generate_loop self (Suc i) later s2 = (Inr (), s2')"
        and p2: "ppins s2 = ppins s1 @ [bound_pin self i t (Some q)]"
        by simp_all
      from generate_loop_pins [OF rest_loop]
      have old: "\<forall>x < length (ppins s2). ppins s2' ! x = ppins s2 ! x"
        by blast
      have "ppins s2' ! length (ppins s1) = bound_pin self i t (Some q)"
        using old p2 by simp
      then have w1: "well (ppins s' ! (length (ppins s) + length earlier)) = Some q"
        and w2: "part (ppins s' ! (length (ppins s) + length earlier)) = r"
        using len1 by (simp_all add: pp r bound_pin_def i_def)
      have "q < length (ppins s1)" using j len1 by (simp add: i_def)
      then have "ppins s2' ! q = ppins s1 ! q"
        using old p2 by (simp add: nth_append)
      with pq have w3: "part (ppins s' ! q) = r" by (simp add: pp r)
      from w1 w2 w3 show ?thesis by simp
    qed
    have second: "\<exists>s2. generate_loop (length (parts s)) 0 (earlier @ [t]) (before_pins c v rd pk po s) =
                          (Inr (), s2) \<and>
                        well (ppins s2 ! (length (ppins s) + length earlier)) = Some q"
      if ne: "names t \<noteq> []"
    proof -
      from ne obtain nm rest where nm: "names t = nm # rest" by (cases "names t") auto
      define s2 where "s2 = s1a\<lparr>parts := (parts s1a)[self := (parts s1a ! self)
          \<lparr>pins := od_set (pins (parts s1a ! self)) nm (length (ppins s1)),
           attrs := fold (\<lambda>name d. od_set d name (length (ppins s1))) (names t) (attrs (parts s1a ! self))\<rparr>]\<rparr>"
      from step [OF nm s2_def] have g1: "G1 = (Inr (), s2)"
        and p2: "ppins s2 = ppins s1 @ [bound_pin self i t (Some q)]"
        by simp_all
      have "ppins s2 ! length (ppins s1) = bound_pin self i t (Some q)"
        using p2 by simp
      then have "well (ppins s2 ! (length (ppins s) + length earlier)) = Some q"
        using len1 by (simp add: i_def bound_pin_def)
      moreover from g1 pre
      have "generate_loop (length (parts s)) 0 (earlier @ [t]) (before_pins c v rd pk po s) = (Inr (), s2)"
        by (simp add: self_def s0_def)
      ultimately show ?thesis by blast
    qed
    have third: "fst (Part_init c v rd pk po s) = Inr (length (parts s))"
      if ne: "names t \<noteq> []" and lt: "\<forall>u \<in> set later. names u \<noteq> [] \<and> well_name u = None"
    proof -
      from ne obtain nm rest where nm: "names t = nm # rest" by (cases "names t") auto
      define s2 where "s2 = s1a\<lparr>parts := (parts s1a)[self := (parts s1a ! self)
          \<lparr>pins := od_set (pins (parts s1a ! self)) nm (length (ppins s1)),
           attrs := fold (\<lambda>name d. od_set d name (length (ppins s1))) (names t) (attrs (parts s1a ! self))\<rparr>]\<rparr>"
      from step [OF nm s2_def] have g: "G = generate_loop self (Suc i) later s2" by simp
      from generate_loop_ok [OF lt] have "fst (generate_loop self (Suc i) later s2) = Inr ()" .
      with g have "fst G = Inr ()" by simp
      then show ?thesis
        by (cases G) (simp add: init self_def)
    qed
    from first second third show ?thesis by blast
  qed
  have A: "(\<exists>q. PinList_getitem (pins (parts s1 ! length (parts s))) (Alias w) s1 = Inr q) \<longleftrightarrow>
            (\<exists>j < length earlier. kept earlier j \<and> answers (str_upper s) w (earlier ! j))"
  proof
    assume "\<exists>q. PinList_getitem (pins (parts s1 ! length (parts s))) (Alias w) s1 = Inr q"
    then obtain q where "PinList_getitem pl (Alias w) s1 = Inr q" by (auto simp: pl_def self_def)
    from found [OF this] show "\<exists>j < length earlier. kept earlier j \<and> answers (str_upper s) w (earlier ! j)"
      unfolding up_def by blast
  next
    assume "\<exists>j < length earlier. kept earlier j \<and> answers (str_upper s) w (earlier ! j)"
    then obtain j where "j < length earlier" "kept earlier j" "answers up w (earlier ! j)"
      unfolding up_def by blast
    from hits [OF this] show "\<exists>q. PinList_getitem (pins (parts s1 ! length (parts s))) (Alias w) s1 = Inr q"
      by (simp add: pl_def self_def)
  qed
  have B: "\<forall>e. PinList_getitem (pins (parts s1 ! length (parts s))) (Alias w) s1 = Inl e \<longrightarrow>
            fst (Part_init c v rd pk po s) = Inl UnknownWellPin"
  proof (intro allI impI)
    fix e assume "PinList_getitem (pins (parts s1 ! length (parts s))) (Alias w) s1 = Inl e"
    then have "PinList_getitem pl (Alias w) s1 = Inl e" by (simp add: pl_def self_def)
    then show "fst (Part_init c v rd pk po s) = Inl UnknownWellPin" by (rule miss)
  qed
  have C: "\<forall>q. PinList_getitem (pins (parts s1 ! length (parts s))) (Alias w) s1 = Inr q \<longrightarrow>
            (\<exists>j < length earlier. q = length (ppins s) + j \<and> kept earlier j \<and>
                 answers (str_upper s) w (earlier ! j) \<and>
                 type (ppins s1 ! q) = type (earlier ! j) \<and> part (ppins s1 ! q) = length (parts s)) \<and>
            (type (ppins s1 ! q) \<notin> {POWER_INPUT, POWER_OUTPUT} \<longrightarrow>
               fst (Part_init c v rd pk po s) = Inl InvalidWellPinType) \<and>
            (type (ppins s1 ! q) \<in> {POWER_INPUT, POWER_OUTPUT} \<longrightarrow>
               (\<forall>r s'. Part_init c v rd pk po s = (Inr r, s') \<longrightarrow>
                  well (ppins s' ! (length (ppins s) + length earlier)) = Some q \<and>
                  part (ppins s' ! (length (ppins s) + length earlier)) = r \<and>
                  part (ppins s' ! q) = r) \<and>
               (names t \<noteq> [] \<longrightarrow>
                  (\<exists>s2. generate_loop (length (parts s)) 0 (earlier @ [t]) (before_pins c v rd pk po s) =
                          (Inr (), s2) \<and>
                        well (ppins s2 ! (length (ppins s) + length earlier)) = Some q)) \<and>
               (names t \<noteq> [] \<and> (\<forall>u \<in> set later. names u \<noteq> [] \<and> well_name u = None) \<longrightarrow>
                  fst (Part_init c v rd pk po s) = Inr (length (parts s))))"
  proof (intro allI impI)
    fix q assume "PinList_getitem (pins (parts s1 ! length (parts s))) (Alias w) s1 = Inr q"
    then have lk: "PinList_getitem pl (Alias w) s1 = Inr q" by (simp add: pl_def self_def)
    have c1: "\<exists>j < length earlier. q = length (ppins s) + j \<and> kept earlier j \<and>
                 answers (str_upper s) w (earlier ! j) \<and>
                 type (ppins s1 ! q) = type (earlier ! j) \<and> part (ppins s1 ! q) = length (parts s)"
      using found [OF lk] unfolding up_def self_def .
    have c2: "type (ppins s1 ! q) \<notin> {POWER_INPUT, POWER_OUTPUT} \<longrightarrow>
               fst (Part_init c v rd pk po s) = Inl InvalidWellPinType"
      using invalid [OF lk] by blast
    have c3: "type (ppins s1 ! q) \<in> {POWER_INPUT, POWER_OUTPUT} \<longrightarrow>
               (\<forall>r s'. Part_init c v rd pk po s = (Inr r, s') \<longrightarrow>
                  well (ppins s' ! (length (ppins s) + length earlier)) = Some q \<and>
                  part (ppins s' ! (length (ppins s) + length earlier)) = r \<and>
                  part (ppins s' ! q) = r) \<and>
               (names t \<noteq> [] \<longrightarrow>
                  (\<exists>s2. generate_loop (length (parts s)) 0 (earlier @ [t]) (before_pins c v rd pk po s) =
                          (Inr (), s2) \<and>
                        well (ppins s2 ! (length (ppins s) + length earlier)) = Some q)) \<and>
               (names t \<noteq> [] \<and> (\<forall>u \<in> set later. names u \<noteq> [] \<and> well_name u = None) \<longrightarrow>
                  fst (Part_init c v rd pk po s) = Inr (length (parts s)))"
      using power [OF lk] by (rule impI)
    from c1 c2 c3
    show "(\<exists>j < length earlier. q = length (ppins s) + j \<and> kept earlier j \<and>
                 answers (str_upper s) w (earlier ! j) \<and>
                 type (ppins s1 ! q) = type (earlier ! j) \<and> part (ppins s1 ! q) = length (parts s)) \<and>
            (type (ppins s1 ! q) \<notin> {POWER_INPUT, POWER_OUTPUT} \<longrightarrow>
               fst (Part_init c v rd pk po s) = Inl InvalidWellPinType) \<and>
            (type (ppins s1 ! q) \<in> {POWER_INPUT, POWER_OUTPUT} \<longrightarrow>
               (\<forall>r s'. Part_init c v rd pk po s = (Inr r, s') \<longrightarrow>
                  well (ppins s' ! (length (ppins s) + length earlier)) = Some q \<and>
                  part (ppins s' ! (length (ppins s) + length earlier)) = r \<and>
                  part (ppins s' ! q) = r) \<and>
               (names t \<noteq> [] \<longrightarrow>
                  (\<exists>s2. generate_loop (length (parts s)) 0 (earlier @ [t]) (before_pins c v rd pk po s) =
                          (Inr (), s2) \<and>
                        well (ppins s2 ! (length (ppins s) + length earlier)) = Some q)) \<and>
               (names t \<noteq> [] \<and> (\<forall>u \<in> set later. names u \<noteq> [] \<and> well_name u = None) \<longrightarrow>
                  fst (Part_init c v rd pk po s) = Inr (length (parts s))))"
      by (intro conjI)
  qed
  from A B C show ?thesis by (intro conjI)
qed

text \<open>
  Claim C8, as stated, fails: in \<open>forward_well\<close> the pin \<open>SIG\<close> declares the well \<open>PWR\<close>, a pin
  of the same part has that alias and is a \<open>POWER_INPUT\<close>, but it is declared after \<open>SIG\<close>:
  the instantiation fails with \<open>UnknownWellPin\<close> instead of setting the well.
\<close>

theorem forward_well_counterexample:
  "well_name (pin_of ascii_upper (body_PINS forward_well ! 0)) = Some ''PWR'' \<and>
   names (pin_of ascii_upper (body_PINS forward_well ! 1)) = [''PWR''] \<and>
   type (pin_of ascii_upper (body_PINS forward_well ! 1)) = POWER_INPUT \<and>
   fst (Part_init 0 None None None True (snd (class_def forward_well empty_state))) = Inl UnknownWellPin"
  by code_simp

theorem well_resolved_during_construction_witness:
  "fst (Part_init 0 None None None True (snd (class_def well_part empty_state))) = Inr 0 \<and>
   well (ppins (snd (Part_init 0 None None None True (snd (class_def well_part empty_state)))) ! 1) = Some 0 \<and>
   part (ppins (snd (Part_init 0 None None None True (snd (class_def well_part empty_state)))) ! 1) = 0"
proof -
  define s where "s = snd (class_def well_part empty_state)"
  define vdd where "vdd = \<lparr>names = [''VDD'', ''PWR''], numbers = None, type = POWER_INPUT, well_name = None\<rparr>"
  define sig where "sig = \<lparr>names = [''SIG''], numbers = None, type = INPUT, well_name = Some ''pwr''\<rparr>"
  define out where "out = \<lparr>names = [''OUT''], numbers = None, type = UNKNOWN, well_name = None\<rparr>"
  define s1 where "s1 = snd (generate_loop (length (parts s)) 0 [vdd] (before_pins 0 None None None True s))"
  have h1: "map (template (str_upper s)) (PINS (classes s ! 0)) = [vdd] @ sig # [out]"
    unfolding s_def vdd_def sig_def out_def by code_simp
  have "fst (generate_loop (length (parts s)) 0 [vdd] (before_pins 0 None None None True s)) = Inr ()"
    unfolding s_def vdd_def by code_simp
  then have h2: "generate_loop (length (parts s)) 0 [vdd] (before_pins 0 None None None True s) = (Inr (), s1)"
    unfolding s1_def by (simp add: prod_eq_iff)
  have h3: "well_name sig = Some ''pwr''" by (simp add: sig_def)
  have lk: "PinList_getitem (pins (parts s1 ! length (parts s))) (Alias ''pwr'') s1 = Inr 0"
    unfolding s1_def s_def vdd_def by code_simp
  have pw: "type (ppins s1 ! 0) \<in> {POWER_INPUT, POWER_OUTPUT}"
    unfolding s1_def s_def vdd_def by code_simp
  have ne: "names sig \<noteq> [] \<and> (\<forall>u \<in> set [out]. names u \<noteq> [] \<and> well_name u = None)"
    by (simp add: sig_def out_def)
  have base: "length (ppins s) = 0" "length (parts s) = 0"
    unfolding s_def by code_simp+
  from well_resolved_during_construction [OF h1 h2 h3]
  have "\<forall>q. PinList_getitem (pins (parts s1 ! length (parts s))) (Alias ''pwr'') s1 = Inr q \<longrightarrow>
            (\<exists>j < length [vdd]. q = length (ppins s) + j \<and> kept [vdd] j \<and>
                 answers (str_upper s) ''pwr'' ([vdd] ! j) \<and>
                 type (ppins s1 ! q) = type ([vdd] ! j) \<and> part (ppins s1 ! q) = length (parts s)) \<and>
            (type (ppins s1 ! q) \<notin> {POWER_INPUT, POWER_OUTPUT} \<longrightarrow>
               fst (Part_init 0 None None None True s) = Inl InvalidWellPinType) \<and>
            (type (ppins s1 ! q) \<in> {POWER_INPUT, POWER_OUTPUT} \<longrightarrow>
               (\<forall>r s'. Part_init 0 None None None True s = (Inr r, s') \<longrightarrow>
                  well (ppins s' ! (length (ppins s) + length [vdd])) = Some q \<and>
                  part (ppins s' ! (length (ppins s) + length [vdd])) = r \<and>
                  part (ppins s' ! q) = r) \<and>
               (names sig \<noteq> [] \<longrightarrow>
                  (\<exists>s2. generate_loop (length (parts s)) 0 ([vdd] @ [sig]) (before_pins 0 None None None True s) =
                          (Inr (), s2) \<and>
                        well (ppins s2 ! (length (ppins s) + length [vdd])) = Some q)) \<and>
               (names sig \<noteq> [] \<and> (\<forall>u \<in> set [out]. names u \<noteq> [] \<and> well_name u = None) \<longrightarrow>
                  fst (Part_init 0 None None None True s) = Inr (length (parts s))))"
    by (elim conjE)
  from this [rule_format, OF lk] pw
  have all: "\<forall>r s'. Part_init 0 None None None True s = (Inr r, s') \<longrightarrow>
                  well (ppins s' ! (length (ppins s) + length [vdd])) = Some 0 \<and>
                  part (ppins s' ! (length (ppins s) + length [vdd])) = r \<and>
                  part (ppins s' ! 0) = r"
    and acc: "names sig \<noteq> [] \<and> (\<forall>u \<in> set [out]. names u \<noteq> [] \<and> well_name u = None) \<longrightarrow>
                  fst (Part_init 0 None None None True s) = Inr (length (parts s))"
    by blast+
  from acc ne have f0: "fst (Part_init 0 None None None True s) = Inr 0"
    by (simp add: base)
  then have ok: "Part_init 0 None None None True s = (Inr 0, snd (Part_init 0 None None None True s))"
    by (simp add: prod_eq_iff)
  from all [rule_format, OF ok] f0 base show ?thesis
    unfolding s_def by simp
qed

subsection \<open>The graph invariant holds in every reachable state\<close>

lemma graph_ok_members:
  "graph_ok s \<Longrightarrow> n < length (nets s) \<Longrightarrow> q \<in> fst ` set (connections (nets s ! n)) \<Longrightarrow>
   q < length (ppins s) \<and> p_net (ppins s ! q) \<noteq> None"
  unfolding graph_ok_def by blast

lemma graph_ok_net:
  "graph_ok s \<Longrightarrow> p < length (ppins s) \<Longrightarrow> p_net (ppins s ! p) = Some n \<Longrightarrow>
   n < length (nets s) \<and> p \<in> fst ` set (connections (nets s ! n))"
  unfolding graph_ok_def by blast

lemma connect_pin_graph_ok:
  assumes ok: "graph_ok s" and n: "n < length (nets s)" and p: "p < length (ppins s)"
  shows "graph_ok (snd (connect_pin n p d s))"
proof -
  define N where "N = (nets s)[n := (nets s ! n)\<lparr>connections := od_set (connections (nets s ! n)) p d\<rparr>]"
  have lenN: "length N = length (nets s)" by (simp add: N_def)
  have memN: "fst ` set (connections (N ! m)) =
                (if m = n then insert p (fst ` set (connections (nets s ! n)))
                 else fst ` set (connections (nets s ! m)))" if "m < length (nets s)" for m
    using that by (simp add: N_def nth_list_update keys_od_set)
  show ?thesis
  proof (cases "p_net (ppins s ! p)")
    case None
    define P where "P = (ppins s)[p := (ppins s ! p)\<lparr>p_net := Some n\<rparr>]"
    have lenP: "length P = length (ppins s)" by (simp add: P_def)
    have netP: "p_net (P ! q) = (if q = p then Some n else p_net (ppins s ! q))"
      if "q < length (ppins s)" for q
      using that by (simp add: P_def nth_list_update)
    have s': "snd (connect_pin n p d s) = s\<lparr>nets := N, ppins := P\<rparr>"
      by (simp add: connect_pin_fresh [OF None] N_def P_def)
    have "graph_ok (s\<lparr>nets := N, ppins := P\<rparr>)"
      unfolding graph_ok_def
    proof (rule conjI; intro allI impI ballI)
      fix m q assume m: "m < length (nets (s\<lparr>nets := N, ppins := P\<rparr>))"
        and q: "q \<in> fst ` set (connections (nets (s\<lparr>nets := N, ppins := P\<rparr>) ! m))"
      from m have m': "m < length (nets s)" by (simp add: lenN)
      from q memN [OF m'] have "q = p \<or> q \<in> fst ` set (connections (nets s ! m))"
        by (auto split: if_splits)
      then have ql: "q < length (ppins s)" and "q = p \<or> p_net (ppins s ! q) \<noteq> None"
        using p graph_ok_members [OF ok m'] by auto
      then show "q < length (ppins (s\<lparr>nets := N, ppins := P\<rparr>)) \<and>
                 p_net (ppins (s\<lparr>nets := N, ppins := P\<rparr>) ! q) \<noteq> None"
        by (auto simp: lenP netP)
    next
      fix q m assume q: "q < length (ppins (s\<lparr>nets := N, ppins := P\<rparr>))"
        and qm: "p_net (ppins (s\<lparr>nets := N, ppins := P\<rparr>) ! q) = Some m"
      from q have q': "q < length (ppins s)" by (simp add: lenP)
      show "m < length (nets (s\<lparr>nets := N, ppins := P\<rparr>)) \<and>
            q \<in> fst ` set (connections (nets (s\<lparr>nets := N, ppins := P\<rparr>) ! m))"
      proof (cases "q = p")
        case True
        with qm q' have "m = n" by (simp add: netP)
        with True n show ?thesis by (simp add: lenN memN)
      next
        case False
        with qm q' have "p_net (ppins s ! q) = Some m" by (simp add: netP)
        from graph_ok_net [OF ok q' this] show ?thesis by (auto simp: lenN memN)
      qed
    qed
    with s' show ?thesis by simp
  next
    case (Some m0)
    have s': "snd (connect_pin n p d s) = s\<lparr>nets := N\<rparr>"
      by (simp add: connect_pin_taken [OF Some] N_def)
    have "graph_ok (s\<lparr>nets := N\<rparr>)"
      unfolding graph_ok_def
    proof (rule conjI; intro allI impI ballI)
      fix m q assume m: "m < length (nets (s\<lparr>nets := N\<rparr>))"
        and q: "q \<in> fst ` set (connections (nets (s\<lparr>nets := N\<rparr>) ! m))"
      from m have m': "m < length (nets s)" by (simp add: lenN)
      from q memN [OF m'] have "q = p \<or> q \<in> fst ` set (connections (nets s ! m))"
        by (auto split: if_splits)
      then show "q < length (ppins (s\<lparr>nets := N\<rparr>)) \<and> p_net (ppins (s\<lparr>nets := N\<rparr>) ! q) \<noteq> None"
        using p Some graph_ok_members [OF ok m'] by auto
    next
      fix q m assume q: "q < length (ppins (s\<lparr>nets := N\<rparr>))"
        and qm: "p_net (ppins (s\<lparr>nets := N\<rparr>) ! q) = Some m"
      from graph_ok_net [OF ok, of q m] q qm
      show "m < length (nets (s\<lparr>nets := N\<rparr>)) \<and>
            q \<in> fst ` set (connections (nets (s\<lparr>nets := N\<rparr>) ! m))"
        by (auto simp: lenN memN)
    qed
    with s' show ?thesis by simp
  qed
qed

lemma sizes_le_refl: "sizes_le s s"
  by (simp add: sizes_le_def)

lemma sizes_le_trans: "sizes_le s s' \<Longrightarrow> sizes_le s' s'' \<Longrightarrow> sizes_le s s''"
  by (auto simp: sizes_le_def)

lemma target_ok_mono: "sizes_le s s' \<Longrightarrow> target_ok s x \<Longrightarrow> target_ok s' x"
  by (cases x) (auto simp: sizes_le_def)

lemma targets_ok_mono: "sizes_le s s' \<Longrightarrow> targets_ok s ts \<Longrightarrow> targets_ok s' ts"
  by (auto simp: targets_ok_def list_all_iff intro: target_ok_mono)

lemma connect_pin_sizes: "sizes_le s (snd (connect_pin n p d s))"
  by (cases "p_net (ppins s ! p)") (simp_all add: connect_pin_fresh connect_pin_taken sizes_le_def)

lemma connect_one_sizes: "sizes_le s (snd (connect_one n x d t s))"
  by (cases x) (simp_all add: connect_pin_sizes sizes_le_refl Part_get_pin_to_connect_def)

lemma connect_one_graph_ok:
  "graph_ok s \<Longrightarrow> n < length (nets s) \<Longrightarrow> target_ok s x \<Longrightarrow> graph_ok (snd (connect_one n x d t s))"
  by (cases x) (simp_all add: connect_pin_graph_ok Part_get_pin_to_connect_def)

lemma connect_loop_graph_ok:
  "graph_ok s \<Longrightarrow> n < length (nets s) \<Longrightarrow> list_all (target_ok s) xs \<Longrightarrow>
   graph_ok (snd (connect_loop n xs d t s)) \<and> sizes_le s (snd (connect_loop n xs d t s))"
proof (induction xs arbitrary: s)
  case Nil
  then show ?case by (simp add: sizes_le_refl)
next
  case (Cons x xs)
  obtain r s1 where one: "connect_one n x d t s = (r, s1)"
    by (cases "connect_one n x d t s")
  from Cons.prems have x: "target_ok s x" and xs: "list_all (target_ok s) xs" by simp_all
  have g1: "graph_ok s1"
    using connect_one_graph_ok [OF Cons.prems(1,2) x, of d t] one by simp
  have z1: "sizes_le s s1"
    using connect_one_sizes [of s n x d t] one by simp
  show ?case
  proof (cases r)
    case (Inl e)
    with one g1 z1 show ?thesis by simp
  next
    case (Inr u)
    have n1: "n < length (nets s1)" using Cons.prems(2) z1 by (simp add: sizes_le_def)
    have xs1: "list_all (target_ok s1) xs"
      using xs z1 by (auto simp: list_all_iff intro: target_ok_mono)
    from Cons.IH [OF g1 n1 xs1] z1 one Inr show ?thesis
      by (auto intro: sizes_le_trans)
  qed
qed

lemma Net_connect_graph_ok:
  "graph_ok s \<Longrightarrow> n < length (nets s) \<Longrightarrow> targets_ok s ts \<Longrightarrow>
   graph_ok (snd (Net_connect n ts d t s)) \<and> sizes_le s (snd (Net_connect n ts d t s))"
  unfolding Net_connect_def targets_ok_def by (rule connect_loop_graph_ok)

lemma Net_init_graph_ok:
  "graph_ok s \<Longrightarrow> graph_ok (snd (Net_init nm s)) \<and> sizes_le s (snd (Net_init nm s))"
  unfolding graph_ok_def sizes_le_def
  by (auto simp: Net_init_eq nth_append less_Suc_eq)

lemma Part_init_graph_ok:
  assumes "graph_ok s"
  shows "graph_ok (snd (Part_init c v rd pk po s)) \<and> sizes_le s (snd (Part_init c v rd pk po s))"
proof -
  obtain r s' where e: "Part_init c v rd pk po s = (r, s')"
    by (cases "Part_init c v rd pk po s")
  from Part_init_frame [OF e] obtain new where
    pp: "ppins s' = ppins s @ new" and fresh: "\<forall>q \<in> set new. p_net q = None"
    and nn: "nets s' = nets s" and sz: "length (parts s') = Suc (length (parts s))"
      "length (classes s') = length (classes s)"
    by blast
  have a: "\<forall>n < length (nets s'). \<forall>q \<in> fst ` set (connections (nets s' ! n)).
             q < length (ppins s') \<and> p_net (ppins s' ! q) \<noteq> None"
  proof (intro allI impI ballI)
    fix n q assume "n < length (nets s')" "q \<in> fst ` set (connections (nets s' ! n))"
    with graph_ok_members [OF assms, of n q] nn
    have "q < length (ppins s) \<and> p_net (ppins s ! q) \<noteq> None" by simp
    then show "q < length (ppins s') \<and> p_net (ppins s' ! q) \<noteq> None"
      by (simp add: pp nth_append)
  qed
  have b: "\<forall>p < length (ppins s'). \<forall>n. p_net (ppins s' ! p) = Some n \<longrightarrow>
             n < length (nets s') \<and> p \<in> fst ` set (connections (nets s' ! n))"
  proof (intro allI impI)
    fix p n assume p: "p < length (ppins s')" and pn: "p_net (ppins s' ! p) = Some n"
    show "n < length (nets s') \<and> p \<in> fst ` set (connections (nets s' ! n))"
    proof (cases "p < length (ppins s)")
      case True
      with pn have "p_net (ppins s ! p) = Some n" by (simp add: pp nth_append)
      from graph_ok_net [OF assms True this] show ?thesis by (simp add: nn)
    next
      case False
      with p have "ppins s' ! p \<in> set new" by (simp add: pp nth_append)
      with fresh pn show ?thesis by auto
    qed
  qed
  from a b have "graph_ok s'" unfolding graph_ok_def by blast
  moreover have "sizes_le s s'" using pp nn sz by (simp add: sizes_le_def)
  ultimately show ?thesis using e by simp
qed

lemma net_get_result:
  "ParticularPin_net_get p s = (Inr (Some n), s') \<Longrightarrow> p_net (ppins s' ! p) = Some n"
  by (cases "p_net (ppins s ! p)")
     (auto simp: ParticularPin_net_get_def Net_init_eq split: prod.splits sum.splits)

lemma net_get_graph_ok:
  assumes ok: "graph_ok s" and p: "p < length (ppins s)"
  shows "graph_ok (snd (ParticularPin_net_get p s)) \<and> sizes_le s (snd (ParticularPin_net_get p s))"
proof (cases "p_net (ppins s ! p)")
  case None
  define s1 where "s1 = snd (Net_init None s)"
  have g1: "graph_ok s1" and z1: "sizes_le s s1"
    using Net_init_graph_ok [OF ok, of None] by (simp_all add: s1_def)
  have n1: "length (nets s) < length (nets s1)" by (simp add: s1_def Net_init_eq)
  have t1: "targets_ok s1 (Single (APin p))"
    using p z1 by (simp add: targets_ok_def sizes_le_def)
  from Net_connect_graph_ok [OF g1 n1 t1, of Dir_UNKNOWN PRIMARY] z1
  have "graph_ok (snd (Net_connect (length (nets s)) (Single (APin p)) Dir_UNKNOWN PRIMARY s1)) \<and>
        sizes_le s (snd (Net_connect (length (nets s)) (Single (APin p)) Dir_UNKNOWN PRIMARY s1))"
    by (auto intro: sizes_le_trans)
  moreover have "snd (ParticularPin_net_get p s) =
        snd (Net_connect (length (nets s)) (Single (APin p)) Dir_UNKNOWN PRIMARY s1)"
    using None by (simp add: ParticularPin_net_get_def Net_init_eq s1_def split: prod.splits sum.splits)
  ultimately show ?thesis by simp
next
  case (Some m)
  with ok show ?thesis by (simp add: ParticularPin_net_get_def sizes_le_refl)
qed

lemma via_net_graph_ok:
  assumes ok: "graph_ok s" and p: "p < length (ppins s)" and ts: "targets_ok s others"
    and op: "\<And>n s1. graph_ok s1 \<Longrightarrow> n < length (nets s1) \<Longrightarrow> targets_ok s1 others \<Longrightarrow>
               graph_ok (snd (net_op n others s1)) \<and> sizes_le s1 (snd (net_op n others s1))"
  shows "graph_ok (snd (via_net net_op p others s)) \<and> sizes_le s (snd (via_net net_op p others s))"
proof -
  obtain r s1 where g: "ParticularPin_net_get p s = (r, s1)"
    by (cases "ParticularPin_net_get p s")
  from net_get_graph_ok [OF ok p] g have g1: "graph_ok s1" and z1: "sizes_le s s1" by simp_all
  show ?thesis
  proof (cases r)
    case (Inl e)
    with g g1 z1 show ?thesis by (simp add: via_net_def)
  next
    case (Inr v)
    show ?thesis
    proof (cases v)
      case None
      with Inr g g1 z1 show ?thesis by (simp add: via_net_def)
    next
      case (Some n)
      from g Inr Some have "p_net (ppins s1 ! p) = Some n" by (simp add: net_get_result)
      moreover have "p < length (ppins s1)" using p z1 by (simp add: sizes_le_def)
      ultimately have n1: "n < length (nets s1)" using graph_ok_net [OF g1] by blast
      from op [OF g1 n1 targets_ok_mono [OF z1 ts]] z1
      have "graph_ok (snd (net_op n others s1)) \<and> sizes_le s (snd (net_op n others s1))"
        by (auto intro: sizes_le_trans)
      with g Inr Some show ?thesis by (simp add: via_net_def)
    qed
  qed
qed

lemma Net_lshift_graph_ok:
  "graph_ok s \<Longrightarrow> n < length (nets s) \<Longrightarrow> targets_ok s ts \<Longrightarrow>
   graph_ok (snd (Net_lshift n ts s)) \<and> sizes_le s (snd (Net_lshift n ts s))"
  by (simp add: Net_lshift_snd Net_connect_graph_ok)

lemma Net_rshift_graph_ok:
  "graph_ok s \<Longrightarrow> n < length (nets s) \<Longrightarrow> targets_ok s ts \<Longrightarrow>
   graph_ok (snd (Net_rshift n ts s)) \<and> sizes_le s (snd (Net_rshift n ts s))"
  by (simp add: Net_rshift_snd Net_connect_graph_ok)

lemma pin_lshift_graph_ok:
  assumes ok: "graph_ok s" and p: "p < length (ppins s)" and ts: "targets_ok s others"
  shows "graph_ok (snd (ParticularPin_lshift p others s))"
proof (cases "p_net (ppins s ! p)")
  case None
  define s1 where "s1 = snd (Net_init None s)"
  have g1: "graph_ok s1" and z1: "sizes_le s s1"
    using Net_init_graph_ok [OF ok, of None] by (simp_all add: s1_def)
  have n1: "length (nets s) < length (nets s1)" by (simp add: s1_def Net_init_eq)
  have t1: "targets_ok s1 (Single (APin p))"
    using p z1 by (simp add: targets_ok_def sizes_le_def)
  obtain r s2 where e: "Net_rshift (length (nets s)) (Single (APin p)) s1 = (r, s2)"
    by (cases "Net_rshift (length (nets s)) (Single (APin p)) s1")
  from Net_rshift_graph_ok [OF g1 n1 t1] e have g2: "graph_ok s2" and z2: "sizes_le s1 s2"
    by simp_all
  have z: "sizes_le s s2" using z1 z2 by (rule sizes_le_trans)
  have p2: "p < length (ppins s2)" using p z by (simp add: sizes_le_def)
  have "graph_ok (snd (via_net Net_lshift p others s2))"
    using via_net_graph_ok [OF g2 p2 targets_ok_mono [OF z ts], of Net_lshift] Net_lshift_graph_ok
    by blast
  with g2 None e show ?thesis
    by (cases r) (simp_all add: ParticularPin_lshift_def Net_init_eq s1_def)
next
  case (Some m)
  have "graph_ok (snd (via_net Net_lshift p others s))"
    using via_net_graph_ok [OF ok p ts, of Net_lshift] Net_lshift_graph_ok by blast
  with Some show ?thesis by (simp add: ParticularPin_lshift_def)
qed

lemma pin_rshift_graph_ok:
  assumes ok: "graph_ok s" and p: "p < length (ppins s)" and ts: "targets_ok s others"
  shows "graph_ok (snd (ParticularPin_rshift p others s))"
proof (cases "p_net (ppins s ! p)")
  case None
  define s1 where "s1 = snd (Net_init None s)"
  have g1: "graph_ok s1" and z1: "sizes_le s s1"
    using Net_init_graph_ok [OF ok, of None] by (simp_all add: s1_def)
  have n1: "length (nets s) < length (nets s1)" by (simp add: s1_def Net_init_eq)
  have t1: "targets_ok s1 (Single (APin p))"
    using p z1 by (simp add: targets_ok_def sizes_le_def)
  obtain r s2 where e: "Net_lshift (length (nets s)) (Single (APin p)) s1 = (r, s2)"
    by (cases "Net_lshift (length (nets s)) (Single (APin p)) s1")
  from Net_lshift_graph_ok [OF g1 n1 t1] e have g2: "graph_ok s2" and z2: "sizes_le s1 s2"
    by simp_all
  have z: "sizes_le s s2" using z1 z2 by (rule sizes_le_trans)
  have p2: "p < length (ppins s2)" using p z by (simp add: sizes_le_def)
  have "graph_ok (snd (via_net Net_rshift p others s2))"
    using via_net_graph_ok [OF g2 p2 targets_ok_mono [OF z ts], of Net_rshift] Net_rshift_graph_ok
    by blast
  with g2 None e show ?thesis
    by (cases r) (simp_all add: ParticularPin_rshift_def Net_init_eq s1_def)
next
  case (Some m)
  have "graph_ok (snd (via_net Net_rshift p others s))"
    using via_net_graph_ok [OF ok p ts, of Net_rshift] Net_rshift_graph_ok by blast
  with Some show ?thesis by (simp add: ParticularPin_rshift_def)
qed

lemma plugin_graph_ok: "graph_ok s \<Longrightarrow> graph_ok (plugin g bs s)"
  using plugin_ppins [of g bs s] by (simp add: graph_ok_def)

lemma exec_graph_ok: "graph_ok s \<Longrightarrow> stmt_ok s c \<Longrightarrow> graph_ok (exec c s)"
proof (cases c)
  case (SPlugin g bs)
  assume "graph_ok s"
  with SPlugin show ?thesis by (simp add: plugin_graph_ok)
next
  case (SClass k)
  assume "graph_ok s"
  with SClass show ?thesis by (simp add: class_def_eq graph_ok_def)
next
  case (SNet n)
  assume "graph_ok s"
  with SNet show ?thesis by (simp add: Net_init_graph_ok)
next
  case (SPart k v r p b)
  assume "graph_ok s"
  with SPart show ?thesis by (simp add: Part_init_graph_ok)
next
  case (SConnect n ts d t)
  assume "graph_ok s" "stmt_ok s c"
  with SConnect show ?thesis by (simp add: Net_connect_graph_ok)
next
  case (SNetLshift n ts)
  assume "graph_ok s" "stmt_ok s c"
  with SNetLshift show ?thesis by (simp add: Net_lshift_graph_ok)
next
  case (SNetRshift n ts)
  assume "graph_ok s" "stmt_ok s c"
  with SNetRshift show ?thesis by (simp add: Net_rshift_graph_ok)
next
  case (SPinLshift p ts)
  assume "graph_ok s" "stmt_ok s c"
  with SPinLshift show ?thesis by (simp add: pin_lshift_graph_ok)
next
  case (SPinRshift p ts)
  assume "graph_ok s" "stmt_ok s c"
  with SPinRshift show ?thesis by (simp add: pin_rshift_graph_ok)
next
  case (SGetNet p)
  assume "graph_ok s" "stmt_ok s c"
  with SGetNet show ?thesis by (simp add: net_get_graph_ok)
qed

lemma run_graph_ok: "graph_ok s \<Longrightarrow> script_ok script s \<Longrightarrow> graph_ok (run script s)"
  unfolding run_def
proof (induction script arbitrary: s)
  case Nil
  then show ?case by simp
next
  case (Cons c cs)
  from Cons.prems have "graph_ok (exec c s)" by (simp add: exec_graph_ok)
  with Cons.IH [of "exec c s"] Cons.prems show ?case by simp
qed

lemma graph_ok_empty: "graph_ok (init_state up)"
  by (simp add: graph_ok_def init_state_def)

text \<open>
  In every state that a script with valid references reaches from the empty state, each
  member of each net has its net set, and each pin whose net is set is a member of that net.
\<close>

lemma reachable_graph_ok:
  "script_ok script (init_state up) \<Longrightarrow> graph_ok (run script (init_state up))"
  by (rule run_graph_ok [OF graph_ok_empty])

lemma reachable_members_have_net:
  "script_ok script (init_state up) \<Longrightarrow> n < length (nets (run script (init_state up))) \<Longrightarrow>
   members_have_net n (run script (init_state up))"
  using reachable_graph_ok [of script up] by (auto simp: graph_ok_def members_have_net_def)

end
